theory Spec2Isabelle
  imports Complex_Main "HOL-Library.Multiset" "HOL-Library.Monad_Syntax"
begin

text \<open>
  A shallow embedding of \<open>Main.py\<close>: the five sorting generators of the strategy classes, the
  timing decorator, the context and the playback loop, followed by the proofs that every variant
  sorts and by what the execution engine's specification says about them.
\<close>

section \<open>Python lists: subscripts, item assignment, tuple swap\<close>

text \<open>
  The dataset is a Python list of integers. A subscript \<open>data[i]\<close> with \<open>0 \<le> i < len\<close>
  reads position \<open>i\<close>; with \<open>-len \<le> i < 0\<close> it reads position \<open>len + i\<close>; anything else
  raises \<open>IndexError\<close>, which is the value \<open>None\<close> here. Indices are Python integers
  (\<open>int\<close>), because the source computes \<open>low - 1\<close>, \<open>pivot_index - 1\<close> and \<open>len(data) - 1\<close>,
  all of which can be negative.
\<close>

definition py_index :: "'a list \<Rightarrow> int \<Rightarrow> nat option" where
  "py_index xs i =
     (if 0 \<le> i \<and> i < int (length xs) then Some (nat i)
      else if i < 0 \<and> - int (length xs) \<le> i then Some (nat (int (length xs) + i))
      else None)"

definition getitem :: "'a list \<Rightarrow> int \<Rightarrow> 'a option" where
  "getitem xs i = map_option (\<lambda>k. xs ! k) (py_index xs i)"

definition setitem :: "'a list \<Rightarrow> int \<Rightarrow> 'a \<Rightarrow> 'a list option" where
  "setitem xs i v = map_option (\<lambda>k. xs[k := v]) (py_index xs i)"

text \<open>
  \<open>data[a], data[b] = data[b], data[a]\<close>: the right-hand side is evaluated first, left to
  right, then the two targets are assigned left to right.
\<close>

definition swap_items :: "'a list \<Rightarrow> int \<Rightarrow> int \<Rightarrow> 'a list option" where
  "swap_items xs a b =
     do {
       x \<leftarrow> getitem xs b;
       y \<leftarrow> getitem xs a;
       xs' \<leftarrow> setitem xs a x;
       setitem xs' b y
     }"

text \<open>
  A slice \<open>data[a:b]\<close> never raises: negative bounds count from the end, and both bounds
  are clamped to \<open>0 .. len\<close>.
\<close>

definition slice_bound :: "nat \<Rightarrow> int \<Rightarrow> nat" where
  "slice_bound n i = (if i < 0 then nat (int n + i) else min n (nat i))"

definition py_slice :: "'a list \<Rightarrow> int \<Rightarrow> int \<Rightarrow> 'a list" where
  "py_slice xs a b =
     (let lo = slice_bound (length xs) a; hi = slice_bound (length xs) b
      in take (hi - lo) (drop lo xs))"

section \<open>Generators as traces\<close>

text \<open>
  Every \<open>sort\<close> is a generator that mutates the list it was given and executes
  \<open>yield data\<close>: it hands the consumer the list object itself, whose contents at that moment
  are what the consumer (\<open>draw_data\<close>) reads before it resumes the generator. A run to
  exhaustion is modelled by the final contents of the list together with the trace of what
  happened, in order. \<open>Yield xs\<close> is one \<open>yield data\<close> with the contents \<open>xs\<close> the list had
  then. The other three events are ghost marks of source lines, added so that statements about
  emission points can be written down: \<open>Pass i\<close> marks the start of iteration \<open>i\<close> of bubble
  sort's outer loop, \<open>Swap a b\<close> marks bubble sort's swap statement, and
  \<open>Partition low high p\<close> marks a completed call \<open>_partition(data, low, high)\<close> that returned
  \<open>p\<close>.
\<close>

datatype event =
    Yield "int list"
  | Pass int
  | Swap int int
  | Partition int int int

type_synonym run = "int list \<times> event list"

fun snapshots :: "event list \<Rightarrow> int list list" where
  "snapshots [] = []"
| "snapshots (Yield xs # es) = xs # snapshots es"
| "snapshots (_ # es) = snapshots es"

definition last_snapshot :: "event list \<Rightarrow> int list option" where
  "last_snapshot es = (if snapshots es = [] then None else Some (last (snapshots es)))"

text \<open>The ghost marks of a trace.\<close>

fun passes :: "event list \<Rightarrow> int list" where
  "passes [] = []"
| "passes (Pass i # es) = i # passes es"
| "passes (_ # es) = passes es"

fun swaps :: "event list \<Rightarrow> (int \<times> int) list" where
  "swaps [] = []"
| "swaps (Swap a b # es) = (a, b) # swaps es"
| "swaps (_ # es) = swaps es"

fun partitions :: "event list \<Rightarrow> (int \<times> int \<times> int) list" where
  "partitions [] = []"
| "partitions (Partition low high p # es) = (low, high, p) # partitions es"
| "partitions (_ # es) = partitions es"

text \<open>\<open>for j in range(a, b): body\<close>, where the body may raise.\<close>

function for_range :: "int \<Rightarrow> int \<Rightarrow> (int \<Rightarrow> 's \<Rightarrow> 's option) \<Rightarrow> 's \<Rightarrow> 's option" where
  "for_range a b body s =
     (if a < b
      then (case body a s of None \<Rightarrow> None | Some s' \<Rightarrow> for_range (a + 1) b body s')
      else Some s)"
  by pat_completeness auto
termination
  by (relation "measure (\<lambda>(a, b, _, _). nat (b - a))") auto

declare for_range.simps [simp del]

section \<open>Facts about the list primitives and the loop\<close>

lemma getitem_nat: "k < length xs \<Longrightarrow> getitem xs (int k) = Some (xs ! k)"
  by (simp add: getitem_def py_index_def)

lemma getitem_nat_Suc: "Suc k < length xs \<Longrightarrow> getitem xs (int k + 1) = Some (xs ! Suc k)"
  using getitem_nat [of "Suc k" xs] by (simp add: add.commute)

lemma setitem_nat: "k < length xs \<Longrightarrow> setitem xs (int k) v = Some (xs[k := v])"
  by (simp add: setitem_def py_index_def)

lemma setitem_nat_Suc: "Suc k < length xs \<Longrightarrow> setitem xs (int k + 1) v = Some (xs[Suc k := v])"
  using setitem_nat [of "Suc k" xs v] by (simp add: add.commute)

lemma swap_items_nat:
  "a < length xs \<Longrightarrow> b < length xs \<Longrightarrow>
   swap_items xs (int a) (int b) = Some (xs[a := xs ! b, b := xs ! a])"
  by (simp add: swap_items_def getitem_nat setitem_nat)

lemma swap_items_nat_Suc:
  "Suc a < length xs \<Longrightarrow>
   swap_items xs (int a) (int a + 1) = Some (xs[a := xs ! Suc a, Suc a := xs ! a])"
  using swap_items_nat [of a xs "Suc a"] by (simp add: add.commute)

lemma for_range_empty: "b \<le> a \<Longrightarrow> for_range a b body s = Some s"
  by (simp add: for_range.simps)

lemma for_range_step:
  "a < b \<Longrightarrow> body a s = Some s' \<Longrightarrow> for_range a b body s = for_range (a + 1) b body s'"
  by (subst for_range.simps) simp

text \<open>The invariant rule for a loop over natural-number positions: total correctness.\<close>

lemma for_range_nat_from:
  assumes step: "\<And>k t. a0 \<le> k \<Longrightarrow> k < b \<Longrightarrow> I k t \<Longrightarrow>
                   \<exists>t'. body (int k) t = Some t' \<and> I (Suc k) t'"
  shows "a0 \<le> a \<Longrightarrow> a \<le> b \<Longrightarrow> I a s \<Longrightarrow>
         \<exists>s'. for_range (int a) (int b) body s = Some s' \<and> I b s'"
proof (induction "b - a" arbitrary: a s)
  case 0
  then show ?case by (simp add: for_range_empty)
next
  case (Suc d)
  then have lt: "a < b" by simp
  from step [OF Suc.prems(1) lt Suc.prems(3)] obtain t
    where t: "body (int a) s = Some t" "I (Suc a) t" by blast
  have "d = b - Suc a" "a0 \<le> Suc a" "Suc a \<le> b"
    using Suc.hyps(2) Suc.prems(1) lt by simp_all
  from Suc.hyps(1) [OF this t(2)]
  obtain s' where s': "for_range (int (Suc a)) (int b) body t = Some s'" "I b s'" by auto
  have "for_range (int a) (int b) body s = for_range (int a + 1) (int b) body t"
    using lt t(1) by (intro for_range_step) simp_all
  with s' show ?case by (simp add: add.commute)
qed

lemma for_range_nat:
  assumes "I a s" and "a \<le> b"
    and "\<And>k t. a \<le> k \<Longrightarrow> k < b \<Longrightarrow> I k t \<Longrightarrow> \<exists>t'. body (int k) t = Some t' \<and> I (Suc k) t'"
  shows "\<exists>s'. for_range (int a) (int b) body s = Some s' \<and> I b s'"
  using for_range_nat_from [of a b I body a s] assms by blast

lemma getitem_Some_nonneg:
  "0 \<le> i \<Longrightarrow> getitem xs i = Some x \<longleftrightarrow> i < int (length xs) \<and> x = xs ! nat i"
  by (auto simp: getitem_def py_index_def)

lemma setitem_Some_nonneg:
  "0 \<le> i \<Longrightarrow> setitem xs i v = Some ys \<longleftrightarrow> i < int (length xs) \<and> ys = xs[nat i := v]"
  by (auto simp: setitem_def py_index_def)

lemma swap_items_Some_nonneg:
  "0 \<le> a \<Longrightarrow> 0 \<le> b \<Longrightarrow> swap_items xs a b = Some ys \<longleftrightarrow>
     a < int (length xs) \<and> b < int (length xs) \<and> ys = xs[nat a := xs ! nat b, nat b := xs ! nat a]"
  by (auto simp: swap_items_def getitem_Some_nonneg setitem_Some_nonneg bind_eq_Some_conv)

text \<open>The invariant rule for partial correctness, over the Python integers.\<close>

lemma for_range_partial_from:
  assumes step: "\<And>k t t'. a0 \<le> k \<Longrightarrow> k < b \<Longrightarrow> body k t = Some t' \<Longrightarrow> I k t \<Longrightarrow> I (k + 1) t'"
  shows "for_range a b body s = Some s' \<Longrightarrow> a0 \<le> a \<Longrightarrow> a \<le> b \<Longrightarrow> I a s \<Longrightarrow> I b s'"
proof (induction "nat (b - a)" arbitrary: a s)
  case 0
  then show ?case by (simp add: for_range_empty)
next
  case (Suc d)
  then have lt: "a < b" by simp
  with Suc.prems(1) obtain t where t: "body a s = Some t" "for_range (a + 1) b body t = Some s'"
    by (subst (asm) for_range.simps) (auto split: option.splits)
  have "I (a + 1) t" using step [OF Suc.prems(2) lt t(1) Suc.prems(4)] .
  moreover have "d = nat (b - (a + 1))" using Suc.hyps(2) by simp
  ultimately show ?case using Suc.hyps(1) [of "a + 1" t] t(2) Suc.prems(2) lt by simp
qed

lemma for_range_partial:
  assumes "for_range a b body s = Some s'" "I a s" "a \<le> b"
    and "\<And>k t t'. a \<le> k \<Longrightarrow> k < b \<Longrightarrow> body k t = Some t' \<Longrightarrow> I k t \<Longrightarrow> I (k + 1) t'"
  shows "I b s'"
  using for_range_partial_from [of a b body I a s s'] assms by blast

section \<open>The five variants\<close>

subsection \<open>Bubble sort (lines 24 to 33)\<close>

text \<open>The body of the inner loop: lines 31 to 33.\<close>

definition bubble_inner :: "int \<Rightarrow> run \<Rightarrow> run option" where
  "bubble_inner j = (\<lambda>(data, tr).
     do {
       x \<leftarrow> getitem data j;
       y \<leftarrow> getitem data (j + 1);
       if x > y
       then do {
         data' \<leftarrow> swap_items data j (j + 1);
         Some (data', tr @ [Swap j (j + 1), Yield data'])
       }
       else Some (data, tr)
     })"

text \<open>The body of the outer loop: line 30 with its loop.\<close>

definition bubble_outer :: "int \<Rightarrow> int \<Rightarrow> run \<Rightarrow> run option" where
  "bubble_outer n i = (\<lambda>(data, tr). for_range 0 (n - i - 1) bubble_inner (data, tr @ [Pass i]))"

definition BubbleSort_sort :: "int list \<Rightarrow> run option" where
  "BubbleSort_sort data = (let n = int (length data) in for_range 0 n (bubble_outer n) (data, []))"

subsection \<open>Insertion sort (lines 35 to 47)\<close>

text \<open>The \<open>while\<close> loop of lines 42 to 45; \<open>and\<close> does not evaluate \<open>data[j]\<close> when \<open>j < 0\<close>.
  It returns the final \<open>j\<close> with the run.\<close>

function insertion_while :: "int \<Rightarrow> int \<Rightarrow> run \<Rightarrow> (int \<times> run) option" where
  "insertion_while key j (data, tr) =
     (if j \<ge> 0
      then (case getitem data j of
              None \<Rightarrow> None
            | Some x \<Rightarrow>
                if key < x
                then do {
                  v \<leftarrow> getitem data j;
                  data' \<leftarrow> setitem data (j + 1) v;
                  insertion_while key (j - 1) (data', tr @ [Yield data'])
                }
                else Some (j, data, tr))
      else Some (j, data, tr))"
  by pat_completeness auto
termination
  by (relation "measure (\<lambda>(key, j, s). nat (j + 1))") auto

declare insertion_while.simps [simp del]

definition insertion_outer :: "int \<Rightarrow> run \<Rightarrow> run option" where
  "insertion_outer i = (\<lambda>(data, tr).
     do {
       key \<leftarrow> getitem data i;
       (j, data1, tr1) \<leftarrow> insertion_while key (i - 1) (data, tr);
       data2 \<leftarrow> setitem data1 (j + 1) key;
       Some (data2, tr1 @ [Yield data2])
     })"

definition InsertionSort_sort :: "int list \<Rightarrow> run option" where
  "InsertionSort_sort data = for_range 1 (int (length data)) insertion_outer (data, [])"

subsection \<open>Merge sort (lines 49 to 73)\<close>

text \<open>The body of the loop of \<open>_merge\<close>, lines 67 to 73. The loop state is \<open>l\<close>, \<open>r\<close> and the run;
  \<open>and\<close> and \<open>or\<close> evaluate their right operand only when needed.\<close>

definition merge_body :: "int list \<Rightarrow> int list \<Rightarrow> int \<Rightarrow> int \<times> int \<times> run \<Rightarrow> (int \<times> int \<times> run) option" where
  "merge_body left_copy right_copy i = (\<lambda>(l, r, data, tr).
     do {
       from_left \<leftarrow>
         (if l < int (length left_copy)
          then (if r \<ge> int (length right_copy) then Some True
                else do {
                  x \<leftarrow> getitem left_copy l;
                  y \<leftarrow> getitem right_copy r;
                  Some (x \<le> y)
                })
          else Some False);
       if from_left
       then do {
         x \<leftarrow> getitem left_copy l;
         data' \<leftarrow> setitem data i x;
         Some (l + 1, r, data', tr @ [Yield data'])
       }
       else do {
         y \<leftarrow> getitem right_copy r;
         data' \<leftarrow> setitem data i y;
         Some (l, r + 1, data', tr @ [Yield data'])
       }
     })"

definition MergeSort_merge :: "int \<Rightarrow> int \<Rightarrow> int \<Rightarrow> run \<Rightarrow> run option" where
  "MergeSort_merge left mid right = (\<lambda>(data, tr).
     let left_copy = py_slice data left (mid + 1);
         right_copy = py_slice data (mid + 1) (right + 1)
     in map_option (\<lambda>(l, r, s). s)
          (for_range left (right + 1) (merge_body left_copy right_copy) (0, 0, data, tr)))"

function MergeSort_merge_sort :: "int \<Rightarrow> int \<Rightarrow> run \<Rightarrow> run option" where
  "MergeSort_merge_sort left right s =
     (if left < right
      then (let mid = (left + right) div 2
            in case MergeSort_merge_sort left mid s of
                 None \<Rightarrow> None
               | Some s1 \<Rightarrow>
                   (case MergeSort_merge_sort (mid + 1) right s1 of
                      None \<Rightarrow> None
                    | Some s2 \<Rightarrow> MergeSort_merge left mid right s2))
      else Some s)"
  by pat_completeness auto
termination
  by (relation "measure (\<lambda>(left, right, s). nat (right - left))") auto

declare MergeSort_merge_sort.simps [simp del]

definition MergeSort_sort :: "int list \<Rightarrow> run option" where
  "MergeSort_sort data = MergeSort_merge_sort 0 (int (length data) - 1) (data, [])"

subsection \<open>Quick sort (lines 75 to 96)\<close>

text \<open>The body of the loop of \<open>_partition\<close>, lines 92 to 94. The loop state is \<open>i\<close> and the list.
  \<open>_partition\<close> is an ordinary function, not a generator: it has no access to the trace.\<close>

definition partition_body :: "int \<Rightarrow> int \<Rightarrow> int \<times> int list \<Rightarrow> (int \<times> int list) option" where
  "partition_body pivot j = (\<lambda>(i, data).
     do {
       x \<leftarrow> getitem data j;
       if x \<le> pivot
       then do {
         data' \<leftarrow> swap_items data (i + 1) j;
         Some (i + 1, data')
       }
       else Some (i, data)
     })"

definition QuickSort_partition :: "int list \<Rightarrow> int \<Rightarrow> int \<Rightarrow> (int list \<times> int) option" where
  "QuickSort_partition data low high =
     do {
       pivot \<leftarrow> getitem data high;
       (i, data1) \<leftarrow> for_range low high (partition_body pivot) (low - 1, data);
       data2 \<leftarrow> swap_items data1 (i + 1) high;
       Some (data2, i + 1)
     }"

text \<open>The returned index lies in the range: this is what makes \<open>_quick_sort\<close> terminate.\<close>

lemma QuickSort_partition_bounds:
  assumes "QuickSort_partition data low high = Some (data', p)" "low \<le> high"
  shows "low \<le> p \<and> p \<le> high"
proof -
  from assms(1) obtain pivot i data1 where
    run: "for_range low high (partition_body pivot) (low - 1, data) = Some (i, data1)" and p: "p = i + 1"
    by (auto simp: QuickSort_partition_def bind_eq_Some_conv)
  define I where "I = (\<lambda>(j::int) (t :: int \<times> int list). low - 1 \<le> fst t \<and> fst t < j)"
  have "I high (i, data1)"
  proof (rule for_range_partial [OF run _ assms(2)])
    show "I low (low - 1, data)" by (simp add: I_def)
    fix k t t' assume "low \<le> k" "partition_body pivot k t = Some t'" "I k t"
    then show "I (k + 1) t'"
      by (cases t) (auto simp: I_def partition_body_def bind_eq_Some_conv split: if_splits)
  qed
  then show ?thesis using p by (simp add: I_def)
qed

function QuickSort_quick_sort :: "int \<Rightarrow> int \<Rightarrow> run \<Rightarrow> run option" where
  "QuickSort_quick_sort low high (data, tr) =
     (if low < high
      then (case QuickSort_partition data low high of
              None \<Rightarrow> None
            | Some (data1, pivot_index) \<Rightarrow>
                (case QuickSort_quick_sort low (pivot_index - 1)
                        (data1, tr @ [Partition low high pivot_index, Yield data1]) of
                   None \<Rightarrow> None
                 | Some s2 \<Rightarrow> QuickSort_quick_sort (pivot_index + 1) high s2))
      else Some (data, tr))"
  by pat_completeness auto
termination
proof (relation "measure (\<lambda>(low, high, s). nat (high - low))", goal_cases)
  case 1
  show ?case by simp
next
  case (2 low high data tr x2 data1 pivot_index)
  then show ?case using QuickSort_partition_bounds [of data low high data1 pivot_index] by simp
next
  case (3 low high data tr x2 data1 pivot_index s2)
  then show ?case using QuickSort_partition_bounds [of data low high data1 pivot_index] by simp
qed

declare QuickSort_quick_sort.simps [simp del]

definition QuickSort_sort :: "int list \<Rightarrow> run option" where
  "QuickSort_sort data = QuickSort_quick_sort 0 (int (length data) - 1) (data, [])"

subsection \<open>Selection sort (lines 98 to 109)\<close>

text \<open>The body of the inner loop, lines 106 and 107. The loop state is \<open>min_idx\<close>.\<close>

definition selection_inner :: "int list \<Rightarrow> int \<Rightarrow> int \<Rightarrow> int option" where
  "selection_inner data j min_idx =
     do {
       x \<leftarrow> getitem data j;
       y \<leftarrow> getitem data min_idx;
       Some (if x < y then j else min_idx)
     }"

definition selection_outer :: "int \<Rightarrow> int \<Rightarrow> run \<Rightarrow> run option" where
  "selection_outer n i = (\<lambda>(data, tr).
     do {
       min_idx \<leftarrow> for_range (i + 1) n (selection_inner data) i;
       data' \<leftarrow> swap_items data i min_idx;
       Some (data', tr @ [Yield data'])
     })"

definition SelectionSort_sort :: "int list \<Rightarrow> run option" where
  "SelectionSort_sort data =
     (let n = int (length data) in for_range 0 n (selection_outer n) (data, []))"

section \<open>Strategies, the timing decorator, the context and the playback loop\<close>

text \<open>
  The five subclasses of \<open>SortStrategy\<close>; the base class only raises \<open>NotImplementedError\<close> and
  is never instantiated by the program. \<open>sort_body self data\<close> is the body of \<open>self.sort\<close> run to
  exhaustion on a list with contents \<open>data\<close>. (The method is called \<open>sort\<close> in every class; here
  each body carries its class name, the private methods \<open>_merge_sort\<close>, \<open>_merge\<close>, \<open>_quick_sort\<close>
  and \<open>_partition\<close> likewise, since a name cannot start with an underscore and \<open>sort\<close> is the
  library's sorting function, used below to say what sorted means.)
\<close>

datatype strategy = BubbleSort | InsertionSort | MergeSort | QuickSort | SelectionSort

fun sort_body :: "strategy \<Rightarrow> int list \<Rightarrow> run option" where
  "sort_body BubbleSort = BubbleSort_sort"
| "sort_body InsertionSort = InsertionSort_sort"
| "sort_body MergeSort = MergeSort_sort"
| "sort_body QuickSort = QuickSort_sort"
| "sort_body SelectionSort = SelectionSort_sort"

text \<open>
  Lists are objects: \<open>execute\<close>, \<open>sort\<close> and the generator all hold a reference to the list
  the caller passed, and \<open>self.data.copy()\<close> makes a new object. The store lists the contents of
  every list object; an address is a position in it.
\<close>

type_synonym addr = nat
type_synonym store = "int list list"

text \<open>
  Calling a generator function runs none of its body: it returns a generator object that holds
  the arguments. \<open>sort_undecorated\<close> is that call for the function under the decorator.
\<close>

record generator =
  gen_self :: strategy
  gen_data :: addr

definition sort_undecorated :: "strategy \<Rightarrow> addr \<Rightarrow> generator" where
  "sort_undecorated self data = \<lparr>gen_self = self, gen_data = data\<rparr>"

text \<open>
  \<open>draw_data\<close>, lines 151 to 167. Before it touches the canvas to draw, it divides every value by
  the largest one (line 158), and that is where it can raise. \<open>i / m\<close> on Python integers raises
  \<open>ZeroDivisionError\<close> when \<open>m\<close> is 0 and \<open>OverflowError\<close> when the quotient, rounded to the
  nearest double, is not finite, that is when its magnitude reaches \<open>2 ^ 1024 - 2 ^ 970\<close>. The
  comprehension divides the values in order and \<open>max(data)\<close> is only evaluated inside it, so an
  empty list raises nothing. \<open>draw_data data\<close> is the exception the call raises, if any. The
  canvas is not modelled: its calls are taken to return.
\<close>

datatype py_error = ZeroDivisionError | OverflowError

definition true_div_raises :: "int \<Rightarrow> int \<Rightarrow> py_error option" where
  "true_div_raises i m =
     (if m = 0 then Some ZeroDivisionError
      else if (2 ^ 1024 - 2 ^ 970) * \<bar>m\<bar> \<le> \<bar>i\<bar> then Some OverflowError
      else None)"

fun normalize_raises :: "int \<Rightarrow> int list \<Rightarrow> py_error option" where
  "normalize_raises m [] = None"
| "normalize_raises m (i # rest) =
     (case true_div_raises i m of Some e \<Rightarrow> Some e | None \<Rightarrow> normalize_raises m rest)"

definition draw_data :: "int list \<Rightarrow> py_error option" where
  "draw_data data = (if data = [] then None else normalize_raises (Max (set data)) data)"

text \<open>
  What the program does to the outside, in order: \<open>Print t\<close> is the line
  \<open>Execution time: t seconds\<close> of line 14, \<open>Draw xs\<close> is a call \<open>draw_data(data)\<close> that sees the
  contents \<open>xs\<close> and returns, \<open>Sleep\<close> is \<open>time.sleep(0.1)\<close>, and \<open>DrawRaised xs e\<close> is a call
  \<open>draw_data(data)\<close> that sees the contents \<open>xs\<close>, clears the canvas and raises \<open>e\<close>; nothing
  catches it, so the thread ends there.
\<close>

datatype effect = Print real | Draw "int list" | Sleep | DrawRaised "int list" py_error


text \<open>Every call of \<open>draw_data\<close> by the loop, whether it returned or raised.\<close>

fun render_calls :: "effect list \<Rightarrow> int list list" where
  "render_calls [] = []"
| "render_calls (Draw xs # es) = xs # render_calls es"
| "render_calls (DrawRaised xs e # es) = xs # render_calls es"
| "render_calls (_ # es) = render_calls es"

text \<open>
  \<open>timing_decorator\<close>, lines 8 to 16. The two readings of \<open>time.time()\<close> are inputs: \<open>clock\<close> is
  the pair of them. The wrapper returns what \<open>func\<close> returned, after the print.
\<close>

definition timing_decorator :: "('a \<Rightarrow> 'b) \<Rightarrow> real \<times> real \<Rightarrow> 'a \<Rightarrow> effect list \<times> 'b" where
  "timing_decorator func clock args =
     (let start_time = fst clock;
          result = func args;
          end_time = snd clock
      in ([Print (end_time - start_time)], result))"

text \<open>The method \<open>sort\<close> as the classes export it: decorated.\<close>

definition sort_decorated :: "strategy \<Rightarrow> real \<times> real \<Rightarrow> addr \<Rightarrow> effect list \<times> generator" where
  "sort_decorated self = timing_decorator (sort_undecorated self)"

text \<open>\<open>AlgorithmContext\<close>, lines 112 to 120.\<close>

record algorithm_context =
  strategy :: strategy

definition set_strategy :: "algorithm_context \<Rightarrow> strategy \<Rightarrow> algorithm_context" where
  "set_strategy self s = self\<lparr>strategy := s\<rparr>"

definition execute :: "algorithm_context \<Rightarrow> real \<times> real \<Rightarrow> addr \<Rightarrow> effect list \<times> generator" where
  "execute self clock data = sort_decorated (strategy self) clock data"

text \<open>
  Consuming a generator until it is exhausted (\<open>for data in generator\<close>): the body runs on the
  list object the generator holds, which ends with the body's final contents, and the consumer
  sees the snapshots in order. An address outside the store is no Python state.
\<close>

definition drain :: "generator \<Rightarrow> store \<Rightarrow> (store \<times> int list list) option" where
  "drain g \<sigma> =
     (if gen_data g < length \<sigma>
      then (case sort_body (gen_self g) (\<sigma> ! gen_data g) of
              None \<Rightarrow> None
            | Some (d, tr) \<Rightarrow> Some (\<sigma>[gen_data g := d], snapshots tr))
      else None)"

text \<open>\<open>data.copy()\<close>: a new list object with the same contents.\<close>

definition list_copy :: "addr \<Rightarrow> store \<Rightarrow> addr \<times> store" where
  "list_copy a \<sigma> = (length \<sigma>, \<sigma> @ [\<sigma> ! a])"

text \<open>
  The loop of lines 195 to 197 over the snapshots the generator has still to yield; \<open>final\<close> is
  what the list holds once the generator is exhausted. When \<open>draw_data\<close> raises, the generator is
  never resumed, so the list keeps the contents it had at that \<open>yield\<close>, which are the snapshot's.
  The result is what the list holds when the loop ends, and the effects.
\<close>

fun playback :: "int list \<Rightarrow> int list list \<Rightarrow> int list \<times> effect list" where
  "playback final [] = (final, [])"
| "playback final (data # rest) =
     (case draw_data data of
        Some e \<Rightarrow> (data, [DrawRaised data e])
      | None \<Rightarrow> (let (c, out) = playback final rest in (c, Draw data # Sleep # out)))"

text \<open>
  \<open>AlgorithmAnalyzer.run_sort\<close>, lines 193 to 197; \<open>self_data\<close> is the address of \<open>self.data\<close>.
  \<open>drain\<close> says what the generator does when it is consumed to the end; the loop consumes it as
  far as \<open>draw_data\<close> returns. The loop has no other exit.
\<close>

definition run_sort :: "addr \<Rightarrow> algorithm_context \<Rightarrow> real \<times> real \<Rightarrow> store \<Rightarrow> (store \<times> effect list) option" where
  "run_sort self_data ctx clock \<sigma> =
     (let (copy, \<sigma>1) = list_copy self_data \<sigma>;
          (out, generator) = execute ctx clock copy
      in case drain generator \<sigma>1 of
           None \<Rightarrow> None
         | Some (\<sigma>2, snaps) \<Rightarrow>
             (let (c, out') = playback (\<sigma>2 ! gen_data generator) snaps
              in Some (\<sigma>2[gen_data generator := c], out @ out')))"

section \<open>Traces: the latest snapshot\<close>

lemma snapshots_append [simp]: "snapshots (es @ fs) = snapshots es @ snapshots fs"
  by (induction es rule: snapshots.induct) simp_all

lemma passes_append [simp]: "passes (es @ fs) = passes es @ passes fs"
  by (induction es rule: passes.induct) simp_all

lemma swaps_append [simp]: "swaps (es @ fs) = swaps es @ swaps fs"
  by (induction es rule: swaps.induct) simp_all

definition latest :: "int list \<Rightarrow> event list \<Rightarrow> int list" where
  "latest d0 tr = last (d0 # snapshots tr)"

lemma latest_Nil [simp]: "latest d0 [] = d0"
  by (simp add: latest_def)

lemma latest_Yield [simp]: "latest d0 (tr @ [Yield d]) = d"
  by (simp add: latest_def)

lemma latest_Pass [simp]: "latest d0 (tr @ [Pass i]) = latest d0 tr"
  by (simp add: latest_def)

lemma latest_Partition [simp]: "latest d0 (tr @ [Partition a b c]) = latest d0 tr"
  by (simp add: latest_def)

lemma latest_event_Yield [simp]: "latest d0 (tr @ [e, Yield d]) = d"
  by (cases e) (simp_all add: latest_def)

section \<open>Bubble sort sorts\<close>

definition settled :: "int list \<Rightarrow> nat \<Rightarrow> bool" where
  "settled d m = (\<forall>q. m \<le> q \<and> q < length d \<longrightarrow> (\<forall>p<q. d ! p \<le> d ! q))"

lemma settled_sorted: "settled d 0 \<Longrightarrow> sorted d"
  by (auto simp: settled_def sorted_iff_nth_mono_less)

definition bubble_inner_inv :: "int list \<Rightarrow> nat \<Rightarrow> nat \<Rightarrow> run \<Rightarrow> bool" where
  "bubble_inner_inv d0 m j = (\<lambda>(d, tr).
     length d = length d0 \<and> mset d = mset d0 \<and> settled d m \<and> (\<forall>p\<le>j. d ! p \<le> d ! j))"

lemma bubble_inner_data:
  assumes "bubble_inner_inv d0 m j t" "Suc j < m" "m \<le> length d0"
  shows "\<exists>t'. bubble_inner (int j) t = Some t' \<and> bubble_inner_inv d0 m (Suc j) t'"
proof -
  obtain d tr where t: "t = (d, tr)" by (cases t)
  from assms t have len: "length d = length d0" and ms: "mset d = mset d0"
    and st: "settled d m" and mx: "\<forall>p\<le>j. d ! p \<le> d ! j"
    by (auto simp: bubble_inner_inv_def)
  have j: "Suc j < length d" using assms len by simp
  show ?thesis
  proof (cases "d ! j > d ! Suc j")
    case False
    have "\<forall>p\<le>Suc j. d ! p \<le> d ! Suc j"
    proof (intro allI impI)
      fix p assume "p \<le> Suc j"
      then show "d ! p \<le> d ! Suc j" using mx False by (cases "p = Suc j") (auto simp: le_Suc_eq intro: order_trans)
    qed
    then show ?thesis using False j len ms st t
      by (simp add: bubble_inner_def getitem_nat getitem_nat_Suc bubble_inner_inv_def)
  next
    case True
    define d' where "d' = d[j := d ! Suc j, Suc j := d ! j]"
    have 1: "mset d' = mset d0" using j ms by (simp add: d'_def mset_swap)
    have 2: "\<forall>p\<le>Suc j. d' ! p \<le> d' ! Suc j"
      using mx True j by (auto simp: d'_def nth_list_update le_Suc_eq)
    have 3: "settled d' m"
      unfolding settled_def
    proof (intro allI impI)
      fix q p assume q: "m \<le> q \<and> q < length d'" and p: "p < q"
      have "d' ! q = d ! q" using q assms(2) by (simp add: d'_def)
      moreover have "d ! j \<le> d ! q" "d ! Suc j \<le> d ! q" "d ! p \<le> d ! q"
        using st q p assms(2) by (auto simp: settled_def d'_def)
      ultimately show "d' ! p \<le> d' ! q" using j by (auto simp: d'_def nth_list_update)
    qed
    show ?thesis using True j len 1 2 3 t
      by (simp add: bubble_inner_def getitem_nat getitem_nat_Suc swap_items_nat_Suc
          bubble_inner_inv_def d'_def)
  qed
qed

definition bubble_outer_inv :: "int list \<Rightarrow> nat \<Rightarrow> run \<Rightarrow> bool" where
  "bubble_outer_inv d0 i = (\<lambda>(d, tr).
     length d = length d0 \<and> mset d = mset d0 \<and> settled d (length d0 - i))"

lemma settled_extend:
  assumes "settled d (Suc m)" "\<forall>p\<le>m. d ! p \<le> d ! m"
  shows "settled d m"
  unfolding settled_def
proof (intro allI impI)
  fix q p assume q: "m \<le> q \<and> q < length d" and p: "p < q"
  show "d ! p \<le> d ! q"
  proof (cases "q = m")
    case True then show ?thesis using assms(2) p by simp
  next
    case False then show ?thesis using assms(1) q p by (simp add: settled_def)
  qed
qed

lemma bubble_outer_data:
  assumes "bubble_outer_inv d0 i t" "i < length d0"
  shows "\<exists>t'. bubble_outer (int (length d0)) (int i) t = Some t' \<and> bubble_outer_inv d0 (Suc i) t'"
proof -
  obtain d tr where t: "t = (d, tr)" by (cases t)
  define m where "m = length d0 - i"
  have m: "0 < m" "m \<le> length d0" "length d0 - Suc i = m - 1" using assms(2) by (simp_all add: m_def)
  have bound: "int (length d0) - int i - 1 = int (m - 1)" using assms(2) by (simp add: m_def)
  have start: "bubble_inner_inv d0 m 0 (d, tr @ [Pass (int i)])"
    using assms(1) t by (simp add: bubble_outer_inv_def bubble_inner_inv_def m_def)
  have "\<exists>s'. for_range (int 0) (int (m - 1)) bubble_inner (d, tr @ [Pass (int i)]) = Some s'
          \<and> bubble_inner_inv d0 m (m - 1) s'"
  proof (rule for_range_nat [where I = "bubble_inner_inv d0 m"])
    show "bubble_inner_inv d0 m 0 (d, tr @ [Pass (int i)])" by (rule start)
    show "0 \<le> m - 1" by simp
    fix k u assume "k < m - 1" "bubble_inner_inv d0 m k u"
    then show "\<exists>t'. bubble_inner (int k) u = Some t' \<and> bubble_inner_inv d0 m (Suc k) t'"
      using bubble_inner_data [of d0 m k u] m by simp
  qed
  then obtain s' where s': "for_range 0 (int (m - 1)) bubble_inner (d, tr @ [Pass (int i)]) = Some s'"
    "bubble_inner_inv d0 m (m - 1) s'" by auto
  obtain d' tr' where p: "s' = (d', tr')" by (cases s')
  have "settled d' (m - 1)"
    using s'(2) p m settled_extend [of d' "m - 1"] by (simp add: bubble_inner_inv_def)
  then have "bubble_outer_inv d0 (Suc i) s'"
    using s'(2) p m by (simp add: bubble_inner_inv_def bubble_outer_inv_def)
  then show ?thesis using s'(1) t bound by (simp add: bubble_outer_def)
qed

lemma bubble_sort_data:
  "\<exists>d tr. BubbleSort_sort d0 = Some (d, tr) \<and> length d = length d0 \<and> mset d = mset d0 \<and> sorted d"
proof -
  have "\<exists>s'. for_range (int 0) (int (length d0)) (bubble_outer (int (length d0))) (d0, []) = Some s'
          \<and> bubble_outer_inv d0 (length d0) s'"
  proof (rule for_range_nat [where I = "bubble_outer_inv d0"])
    show "bubble_outer_inv d0 0 (d0, [])" by (simp add: bubble_outer_inv_def settled_def)
    show "0 \<le> length d0" by simp
    fix k u assume "k < length d0" "bubble_outer_inv d0 k u"
    then show "\<exists>t'. bubble_outer (int (length d0)) (int k) u = Some t' \<and> bubble_outer_inv d0 (Suc k) t'"
      by (rule bubble_outer_data [rotated])
  qed
  then show ?thesis
    by (auto simp: BubbleSort_sort_def bubble_outer_inv_def intro: settled_sorted)
qed

subsection \<open>The trace of bubble sort\<close>

text \<open>\<open>bubble_steps d es\<close>: starting from contents \<open>d\<close>, the trace \<open>es\<close> consists of passes and of
  pairs of a swap with the snapshot that follows it at once; each swap exchanges two neighbours that
  are out of order, and the snapshot shows exactly the list after that swap.\<close>

fun bubble_steps :: "int list \<Rightarrow> event list \<Rightarrow> bool" where
  "bubble_steps d [] = True"
| "bubble_steps d (Pass i # es) = bubble_steps d es"
| "bubble_steps d (Swap a b # Yield xs # es) =
     (0 \<le> a \<and> b = a + 1 \<and> b < int (length d) \<and> d ! nat a > d ! nat b \<and>
      xs = d[nat a := d ! nat b, nat b := d ! nat a] \<and> bubble_steps xs es)"
| "bubble_steps d _ = False"

lemma bubble_steps_append:
  "bubble_steps d es \<Longrightarrow> bubble_steps (last (d # snapshots es)) fs \<Longrightarrow> bubble_steps d (es @ fs)"
  by (induction d es rule: bubble_steps.induct) simp_all

lemma bubble_steps_count: "bubble_steps d es \<Longrightarrow> length (swaps es) = length (snapshots es)"
  by (induction d es rule: bubble_steps.induct) simp_all

definition bubble_trace_inv :: "int list \<Rightarrow> run \<Rightarrow> bool" where
  "bubble_trace_inv d0 = (\<lambda>(d, tr). bubble_steps d0 tr \<and> latest d0 tr = d)"

lemma bubble_inner_trace:
  assumes "bubble_inner j t = Some t'" "0 \<le> j" "bubble_trace_inv d0 t"
  shows "bubble_trace_inv d0 t' \<and> passes (snd t') = passes (snd t)"
proof -
  obtain d tr where t: "t = (d, tr)" by (cases t)
  from assms(3) t have st: "bubble_steps d0 tr" and d: "d = last (d0 # snapshots tr)"
    by (simp_all add: bubble_trace_inv_def latest_def)
  from assms(1,2) t
  consider "t' = t" |
    "j + 1 < int (length d)" "d ! nat j > d ! nat (j + 1)"
    "t' = (d[nat j := d ! nat (j + 1), nat (j + 1) := d ! nat j],
           tr @ [Swap j (j + 1), Yield (d[nat j := d ! nat (j + 1), nat (j + 1) := d ! nat j])])"
    by (auto simp: bubble_inner_def bind_eq_Some_conv getitem_Some_nonneg swap_items_Some_nonneg
        split: if_splits)
  then show ?thesis
  proof cases
    case 1
    then show ?thesis using assms(3) by simp
  next
    case 2
    have "bubble_steps d [Swap j (j + 1), Yield (d[nat j := d ! nat (j + 1), nat (j + 1) := d ! nat j])]"
      using 2 assms(2) by simp
    then have "bubble_steps d0 (tr @ [Swap j (j + 1), Yield (d[nat j := d ! nat (j + 1), nat (j + 1) := d ! nat j])])"
      using st d by (intro bubble_steps_append) simp_all
    then show ?thesis using 2 t by (simp add: bubble_trace_inv_def)
  qed
qed

lemma bubble_outer_trace:
  assumes "bubble_outer n i t = Some t'" "bubble_trace_inv d0 t"
  shows "bubble_trace_inv d0 t' \<and> passes (snd t') = passes (snd t) @ [i]"
proof -
  obtain d tr where t: "t = (d, tr)" by (cases t)
  define I where "I = (\<lambda>(k::int) u. bubble_trace_inv d0 u \<and> passes (snd u) = passes tr @ [i])"
  show ?thesis
  proof (cases "0 \<le> n - i - 1")
    case True
    have run: "for_range 0 (n - i - 1) bubble_inner (d, tr @ [Pass i]) = Some t'"
      using assms(1) t by (simp add: bubble_outer_def)
    have "I (n - i - 1) t'"
    proof (rule for_range_partial [OF run _ True])
      have "bubble_steps d0 (tr @ [Pass i])"
        using assms(2) t by (intro bubble_steps_append) (simp_all add: bubble_trace_inv_def latest_def)
      then show "I 0 (d, tr @ [Pass i])"
        using assms(2) t by (simp add: I_def bubble_trace_inv_def)
    next
      fix k u u' assume "0 \<le> k" "bubble_inner k u = Some u'" "I k u"
      then show "I (k + 1) u'" using bubble_inner_trace [of k u u' d0] by (simp add: I_def)
    qed
    then show ?thesis using t by (simp add: I_def)
  next
    case False
    then have "t' = (d, tr @ [Pass i])"
      using assms(1) t by (simp add: bubble_outer_def for_range_empty)
    moreover have "bubble_steps d0 (tr @ [Pass i])"
      using assms(2) t by (intro bubble_steps_append) (simp_all add: bubble_trace_inv_def latest_def)
    ultimately show ?thesis using assms(2) t by (simp add: bubble_trace_inv_def)
  qed
qed

lemma bubble_sort_trace:
  assumes "BubbleSort_sort d0 = Some (d, tr)"
  shows "bubble_steps d0 tr \<and> latest d0 tr = d \<and> passes tr = map int [0..<length d0]"
proof -
  define I where "I = (\<lambda>(k::int) u. bubble_trace_inv d0 u \<and> passes (snd u) = map int [0..<nat k])"
  have run: "for_range 0 (int (length d0)) (bubble_outer (int (length d0))) (d0, []) = Some (d, tr)"
    using assms by (simp add: BubbleSort_sort_def Let_def)
  have "I (int (length d0)) (d, tr)"
  proof (rule for_range_partial [OF run])
    show "I 0 (d0, [])" by (simp add: I_def bubble_trace_inv_def)
    show "0 \<le> int (length d0)" by simp
    fix k u u' assume "0 \<le> k" "bubble_outer (int (length d0)) k u = Some u'" "I k u"
    then show "I (k + 1) u'"
      using bubble_outer_trace [of "int (length d0)" k u u' d0]
      by (simp add: I_def nat_add_distrib)
  qed
  then show ?thesis by (simp add: I_def bubble_trace_inv_def)
qed

section \<open>Selection sort sorts\<close>

definition placed :: "int list \<Rightarrow> nat \<Rightarrow> bool" where
  "placed d i = (\<forall>p q. p < i \<and> p < q \<and> q < length d \<longrightarrow> d ! p \<le> d ! q)"

lemma placed_sorted: "placed d (length d) \<Longrightarrow> sorted d"
  by (auto simp: placed_def sorted_iff_nth_mono_less)

definition selection_min_inv :: "int list \<Rightarrow> nat \<Rightarrow> nat \<Rightarrow> int \<Rightarrow> bool" where
  "selection_min_inv d i j m =
     (int i \<le> m \<and> m < int j \<and> (\<forall>k. i \<le> k \<and> k < j \<longrightarrow> d ! nat m \<le> d ! k))"

lemma selection_inner_min:
  assumes "selection_min_inv d i j m" "j < length d"
  shows "\<exists>m'. selection_inner d (int j) m = Some m' \<and> selection_min_inv d i (Suc j) m'"
proof -
  from assms(1) obtain k where k: "m = int k" "i \<le> k" "k < j"
    "\<forall>q. i \<le> q \<and> q < j \<longrightarrow> d ! k \<le> d ! q"
    by (auto simp: selection_min_inv_def intro: that [of "nat m"])
  have run: "selection_inner d (int j) m = Some (if d ! j < d ! k then int j else int k)"
    using assms(2) k by (simp add: selection_inner_def getitem_nat)
  have "selection_min_inv d i (Suc j) (if d ! j < d ! k then int j else int k)"
  proof (cases "d ! j < d ! k")
    case True
    have "d ! j \<le> d ! q" if "i \<le> q" "q < Suc j" for q
      using that True k(4) by (cases "q = j") (auto simp: less_Suc_eq intro: order_trans less_imp_le)
    then show ?thesis using True k by (auto simp: selection_min_inv_def)
  next
    case False
    have "d ! k \<le> d ! q" if "i \<le> q" "q < Suc j" for q
      using that False k(4) by (cases "q = j") (auto simp: less_Suc_eq)
    then show ?thesis using False k by (auto simp: selection_min_inv_def)
  qed
  with run show ?thesis by simp
qed

definition selection_outer_inv :: "int list \<Rightarrow> nat \<Rightarrow> run \<Rightarrow> bool" where
  "selection_outer_inv d0 i = (\<lambda>(d, tr).
     length d = length d0 \<and> mset d = mset d0 \<and> placed d i \<and>
     length (snapshots tr) = i \<and> latest d0 tr = d)"

lemma placed_swap_min:
  assumes "placed d i" "i \<le> k" "k < length d" "\<forall>q. i \<le> q \<and> q < length d \<longrightarrow> d ! k \<le> d ! q"
  shows "placed (d[i := d ! k, k := d ! i]) (Suc i)"
  unfolding placed_def
proof (intro allI impI)
  fix p q assume a: "p < Suc i \<and> p < q \<and> q < length (d[i := d ! k, k := d ! i])"
  let ?d' = "d[i := d ! k, k := d ! i]"
  have q: "i \<le> q \<Longrightarrow> d ! k \<le> d ! q" using a assms(4) by simp
  show "?d' ! p \<le> ?d' ! q"
  proof (cases "p = i")
    case True
    then have "?d' ! p = d ! k" using assms(2,3) by (simp add: nth_list_update)
    moreover have "d ! k \<le> ?d' ! q" using a True assms by (auto simp: nth_list_update)
    ultimately show ?thesis by simp
  next
    case False
    then have p: "p < i" using a by simp
    then have "?d' ! p = d ! p" using assms(2) by simp
    moreover have "d ! p \<le> d ! q" "d ! p \<le> d ! i" "d ! p \<le> d ! k"
      using assms(1-3) p a by (auto simp: placed_def)
    ultimately show ?thesis using a assms(2,3) by (auto simp: nth_list_update)
  qed
qed

lemma selection_outer_step:
  assumes "selection_outer_inv d0 i t" "i < length d0"
  shows "\<exists>t'. selection_outer (int (length d0)) (int i) t = Some t' \<and> selection_outer_inv d0 (Suc i) t'"
proof -
  obtain d tr where t: "t = (d, tr)" by (cases t)
  from assms(1) t have len: "length d = length d0" and ms: "mset d = mset d0" and pl: "placed d i"
    and tr: "length (snapshots tr) = i"
    by (simp_all add: selection_outer_inv_def)
  have "\<exists>m. for_range (int (Suc i)) (int (length d0)) (selection_inner d) (int i) = Some m
          \<and> selection_min_inv d i (length d0) m"
  proof (rule for_range_nat [where I = "selection_min_inv d i"])
    show "selection_min_inv d i (Suc i) (int i)" by (auto simp: selection_min_inv_def less_Suc_eq)
    show "Suc i \<le> length d0" using assms(2) by simp
    fix k m assume "k < length d0" "selection_min_inv d i k m"
    then show "\<exists>m'. selection_inner d (int k) m = Some m' \<and> selection_min_inv d i (Suc k) m'"
      using selection_inner_min [of d i k m] len by simp
  qed
  then obtain m where m: "for_range (int i + 1) (int (length d0)) (selection_inner d) (int i) = Some m"
    "selection_min_inv d i (length d0) m" by (auto simp: add.commute)
  from m(2) obtain k where k: "m = int k" "i \<le> k" "k < length d"
    "\<forall>q. i \<le> q \<and> q < length d \<longrightarrow> d ! k \<le> d ! q"
    using len by (auto simp: selection_min_inv_def intro: that [of "nat m"])
  define d' where "d' = d[i := d ! k, k := d ! i]"
  have sw: "swap_items d (int i) m = Some d'"
    using k assms(2) len by (simp add: swap_items_nat d'_def)
  have "placed d' (Suc i)" unfolding d'_def using pl k(2-4) by (rule placed_swap_min)
  moreover have "mset d' = mset d0" using k assms(2) len ms by (simp add: d'_def mset_swap)
  moreover have "length d' = length d0" using len by (simp add: d'_def)
  ultimately have "selection_outer_inv d0 (Suc i) (d', tr @ [Yield d'])"
    using tr by (simp add: selection_outer_inv_def)
  then show ?thesis using m(1) sw t by (simp add: selection_outer_def)
qed

lemma selection_sort_correct:
  "\<exists>d tr. SelectionSort_sort d0 = Some (d, tr) \<and> length d = length d0 \<and> mset d = mset d0 \<and> sorted d
     \<and> length (snapshots tr) = length d0 \<and> latest d0 tr = d"
proof -
  have "\<exists>s'. for_range (int 0) (int (length d0)) (selection_outer (int (length d0))) (d0, []) = Some s'
          \<and> selection_outer_inv d0 (length d0) s'"
  proof (rule for_range_nat [where I = "selection_outer_inv d0"])
    show "selection_outer_inv d0 0 (d0, [])" by (simp add: selection_outer_inv_def placed_def)
    show "0 \<le> length d0" by simp
    fix k u assume "k < length d0" "selection_outer_inv d0 k u"
    then show "\<exists>t'. selection_outer (int (length d0)) (int k) u = Some t' \<and> selection_outer_inv d0 (Suc k) t'"
      by (rule selection_outer_step [rotated])
  qed
  then obtain d tr where r: "SelectionSort_sort d0 = Some (d, tr)" "selection_outer_inv d0 (length d0) (d, tr)"
    by (auto simp: SelectionSort_sort_def)
  from r(2) have "placed d (length d)" by (simp add: selection_outer_inv_def)
  then have "sorted d" by (rule placed_sorted)
  with r show ?thesis by (simp add: selection_outer_inv_def)
qed

section \<open>Insertion sort sorts\<close>

lemma insertion_while_shift:
  assumes "\<forall>y\<in>set B. key < y"
  shows "\<exists>A1 A2 h' tr'.
           A = A1 @ A2 \<and>
           insertion_while key (int (length A) - 1) (A @ h # B @ S, tr)
             = Some (int (length A1) - 1, A1 @ h' # A2 @ B @ S, tr') \<and>
           (\<forall>y\<in>set A2. key < y) \<and> (A1 = [] \<or> last A1 \<le> key)"
  using assms
proof (induction A arbitrary: h B tr rule: rev_induct)
  case Nil
  show ?case by (simp add: insertion_while.simps)
next
  case (snoc a As)
  have get: "getitem ((As @ [a]) @ h # B @ S) (int (length (As @ [a])) - 1) = Some a"
    using getitem_nat [of "length As" "(As @ [a]) @ h # B @ S"] by (simp add: nth_append)
  show ?case
  proof (cases "key < a")
    case False
    have "insertion_while key (int (length (As @ [a])) - 1) ((As @ [a]) @ h # B @ S, tr)
            = Some (int (length (As @ [a])) - 1, (As @ [a]) @ h # [] @ B @ S, tr)"
      using False get by (subst insertion_while.simps) simp
    then have "As @ [a] = (As @ [a]) @ [] \<and>
        insertion_while key (int (length (As @ [a])) - 1) ((As @ [a]) @ h # B @ S, tr)
          = Some (int (length (As @ [a])) - 1, (As @ [a]) @ h # [] @ B @ S, tr) \<and>
        (\<forall>y\<in>set []. key < y) \<and> (As @ [a] = [] \<or> last (As @ [a]) \<le> key)"
      using False by simp
    then show ?thesis by blast
  next
    case True
    let ?d' = "As @ a # (a # B) @ S"
    have set: "setitem ((As @ [a]) @ h # B @ S) (int (length (As @ [a])) - 1 + 1) a = Some ?d'"
      using setitem_nat [of "Suc (length As)" "(As @ [a]) @ h # B @ S" a]
      by (simp add: list_update_append add.commute)
    have step: "insertion_while key (int (length (As @ [a])) - 1) ((As @ [a]) @ h # B @ S, tr)
            = insertion_while key (int (length As) - 1) (?d', tr @ [Yield ?d'])"
      using True get set by (subst insertion_while.simps) simp
    have "\<forall>y\<in>set (a # B). key < y" using True snoc.prems by simp
    from snoc.IH [OF this, of a "tr @ [Yield ?d']"]
    obtain A1 A2 h' tr' where r: "As = A1 @ A2"
      "insertion_while key (int (length As) - 1) (?d', tr @ [Yield ?d'])
         = Some (int (length A1) - 1, A1 @ h' # A2 @ (a # B) @ S, tr')"
      "\<forall>y\<in>set A2. key < y" "A1 = [] \<or> last A1 \<le> key"
      by blast
    have eq: "A1 @ h' # A2 @ (a # B) @ S = A1 @ h' # (A2 @ [a]) @ B @ S" by simp
    have run: "insertion_while key (int (length (As @ [a])) - 1) ((As @ [a]) @ h # B @ S, tr)
          = Some (int (length A1) - 1, A1 @ h' # (A2 @ [a]) @ B @ S, tr')"
      by (simp only: step r(2) eq)
    have "As @ [a] = A1 @ (A2 @ [a])" using r(1) by simp
    moreover have "\<forall>y\<in>set (A2 @ [a]). key < y" using r(3) True by simp
    ultimately have "As @ [a] = A1 @ (A2 @ [a]) \<and>
        insertion_while key (int (length (As @ [a])) - 1) ((As @ [a]) @ h # B @ S, tr)
          = Some (int (length A1) - 1, A1 @ h' # (A2 @ [a]) @ B @ S, tr') \<and>
        (\<forall>y\<in>set (A2 @ [a]). key < y) \<and> (A1 = [] \<or> last A1 \<le> key)"
      using run r(4) by blast
    then show ?thesis by blast
  qed
qed

lemma sorted_insert_between:
  assumes "sorted (A1 @ A2)" "A1 = [] \<or> last A1 \<le> key" "\<forall>y\<in>set A2. key < y"
  shows "sorted (A1 @ key # A2)"
proof -
  have "x \<le> key" if "x \<in> set A1" for x
  proof (cases A1 rule: rev_cases)
    case Nil
    with that show ?thesis by simp
  next
    case (snoc ys y)
    then have "sorted (ys @ [y])" using assms(1) by (simp add: sorted_append)
    then have "x \<le> y" using that snoc by (auto simp: sorted_append)
    with assms(2) snoc show ?thesis by simp
  qed
  with assms(1,3) show ?thesis by (auto simp: sorted_append less_imp_le)
qed

definition insertion_outer_inv :: "int list \<Rightarrow> nat \<Rightarrow> run \<Rightarrow> bool" where
  "insertion_outer_inv d0 i = (\<lambda>(d, tr).
     length d = length d0 \<and> mset d = mset d0 \<and> sorted (take i d) \<and> latest d0 tr = d)"

lemma insertion_outer_step:
  assumes "insertion_outer_inv d0 i t" "i < length d0"
  shows "\<exists>t'. insertion_outer (int i) t = Some t' \<and> insertion_outer_inv d0 (Suc i) t'"
proof -
  obtain d tr where t: "t = (d, tr)" by (cases t)
  from assms(1) t have len: "length d = length d0" and ms: "mset d = mset d0"
    and so: "sorted (take i d)" and la: "latest d0 tr = d"
    by (simp_all add: insertion_outer_inv_def)
  define A where "A = take i d"
  define S where "S = drop (Suc i) d"
  define key where "key = d ! i"
  have i: "i < length d" using assms(2) len by simp
  have d: "d = A @ key # [] @ S" using i by (simp add: A_def S_def key_def id_take_nth_drop [symmetric])
  have lA: "length A = i" using i by (simp add: A_def)
  from insertion_while_shift [of "[]" key A key S tr]
  obtain A1 A2 h' tr' where r: "A = A1 @ A2"
    "insertion_while key (int (length A) - 1) (A @ key # [] @ S, tr)
       = Some (int (length A1) - 1, A1 @ h' # A2 @ [] @ S, tr')"
    "\<forall>y\<in>set A2. key < y" "A1 = [] \<or> last A1 \<le> key"
    by (metis empty_iff empty_set)
  define d2 where "d2 = A1 @ key # A2 @ S"
  have set: "setitem (A1 @ h' # A2 @ [] @ S) (int (length A1) - 1 + 1) key = Some d2"
    using setitem_nat [of "length A1" "A1 @ h' # A2 @ [] @ S" key] by (simp add: d2_def)
  have "sorted (A1 @ key # A2)" using so r(1,3,4) by (intro sorted_insert_between) (simp_all add: A_def)
  moreover have "take (Suc (length A1 + length A2)) d2 = A1 @ key # A2" by (simp add: d2_def)
  then have "take (Suc i) d2 = A1 @ key # A2" using lA r(1) by simp
  ultimately have 1: "sorted (take (Suc i) d2)" by simp
  have "mset d2 = mset d" by (subst d) (simp add: d2_def r(1))
  then have 2: "mset d2 = mset d0" using ms by simp
  have 3: "length d2 = length d0" using len by (subst (asm) d) (simp add: d2_def r(1))
  have w: "insertion_while key (int i - 1) (d, tr)
             = Some (int (length A1) - 1, A1 @ h' # A2 @ [] @ S, tr')"
    using r(2) unfolding d [symmetric] lA by simp
  have "insertion_outer (int i) (d, tr) = Some (d2, tr' @ [Yield d2])"
    using w set i by (simp add: insertion_outer_def getitem_nat key_def)
  then show ?thesis using 1 2 3 t by (simp add: insertion_outer_inv_def)
qed

lemma insertion_sort_correct:
  "\<exists>d tr. InsertionSort_sort d0 = Some (d, tr) \<and> length d = length d0 \<and> mset d = mset d0 \<and> sorted d
     \<and> latest d0 tr = d"
proof (cases "d0 = []")
  case True
  then show ?thesis by (simp add: InsertionSort_sort_def for_range_empty)
next
  case False
  have "\<exists>s'. for_range (int 1) (int (length d0)) insertion_outer (d0, []) = Some s'
          \<and> insertion_outer_inv d0 (length d0) s'"
  proof (rule for_range_nat [where I = "insertion_outer_inv d0"])
    show "insertion_outer_inv d0 1 (d0, [])"
      by (cases d0) (simp_all add: insertion_outer_inv_def)
    show "1 \<le> length d0" using False by (cases d0) simp_all
    fix k u assume "k < length d0" "insertion_outer_inv d0 k u"
    then show "\<exists>t'. insertion_outer (int k) u = Some t' \<and> insertion_outer_inv d0 (Suc k) t'"
      by (rule insertion_outer_step [rotated])
  qed
  then show ?thesis by (auto simp: InsertionSort_sort_def insertion_outer_inv_def)
qed

section \<open>Merge sort sorts\<close>

lemma py_slice_nat:
  "a \<le> b \<Longrightarrow> b \<le> length xs \<Longrightarrow> py_slice xs (int a) (int b) = take (b - a) (drop a xs)"
  by (simp add: py_slice_def slice_bound_def)

lemma py_slice_middle:
  "py_slice (P @ L @ S) (int (length P)) (int (length P + length L)) = L"
  using py_slice_nat [of "length P" "length P + length L" "P @ L @ S"] by simp

definition merge_inv ::
  "int list \<Rightarrow> int list \<Rightarrow> int list \<Rightarrow> int list \<Rightarrow> int list \<Rightarrow> nat \<Rightarrow> int \<times> int \<times> run \<Rightarrow> bool" where
  "merge_inv d0 P lc rc Sfx i = (\<lambda>(l, r, d, tr).
     \<exists>l' r' M X. l = int l' \<and> r = int r' \<and> l' \<le> length lc \<and> r' \<le> length rc \<and>
        length M = l' + r' \<and> i = length P + l' + r' \<and> d = P @ M @ X @ Sfx \<and>
        length M + length X = length lc + length rc \<and> sorted M \<and>
        mset M = mset (take l' lc) + mset (take r' rc) \<and>
        (\<forall>x\<in>set M. \<forall>y\<in>set (drop l' lc) \<union> set (drop r' rc). x \<le> y) \<and>
        latest d0 tr = d)"

lemma update_middle:
  "(P @ M @ (x # X) @ S)[length P + length M := v] = P @ (M @ [v]) @ X @ S"
  by (simp add: list_update_append)

lemma sorted_nth_le_drop:
  assumes "sorted xs" "k < length xs" "y \<in> set (drop k xs)"
  shows "xs ! k \<le> y"
proof -
  from assms(3) obtain j where "j < length xs - k" "y = xs ! (k + j)"
    by (auto simp: in_set_conv_nth)
  then show ?thesis using assms(1) by (auto intro: sorted_nth_mono)
qed

lemma merge_inv_extend:
  assumes "sorted M" "\<forall>x\<in>set M. \<forall>y\<in>set (drop l' lc) \<union> set (drop r' rc). x \<le> y"
    and "v \<in> set (drop l' lc) \<union> set (drop r' rc)"
    and "\<forall>y\<in>set (drop l2 lc) \<union> set (drop r2 rc). v \<le> y"
    and "set (drop l2 lc) \<subseteq> set (drop l' lc)" "set (drop r2 rc) \<subseteq> set (drop r' rc)"
  shows "sorted (M @ [v]) \<and> (\<forall>x\<in>set (M @ [v]). \<forall>y\<in>set (drop l2 lc) \<union> set (drop r2 rc). x \<le> y)"
  using assms by (auto simp: sorted_append)

lemma merge_invI:
  assumes "l' \<le> length lc" "r' \<le> length rc" "length M = l' + r'" "i = length P + l' + r'"
    "length M + length X = length lc + length rc" "sorted M"
    "mset M = mset (take l' lc) + mset (take r' rc)"
    "\<forall>x\<in>set M. \<forall>y\<in>set (drop l' lc) \<union> set (drop r' rc). x \<le> y"
    "latest d0 tr = P @ M @ X @ Sfx"
  shows "merge_inv d0 P lc rc Sfx i (int l', int r', P @ M @ X @ Sfx, tr)"
  unfolding merge_inv_def using assms by blast

lemma merge_body_step:
  assumes inv: "merge_inv d0 P lc rc Sfx i t" and i: "i < length P + length lc + length rc"
    and lc: "sorted lc" and rc: "sorted rc"
  shows "\<exists>t'. merge_body lc rc (int i) t = Some t' \<and> merge_inv d0 P lc rc Sfx (Suc i) t'"
proof -
  obtain l r d tr where t: "t = (l, r, d, tr)" by (cases t)
  from inv t obtain l' r' M X where s: "l = int l'" "r = int r'" "l' \<le> length lc" "r' \<le> length rc"
    "length M = l' + r'" "i = length P + l' + r'" "d = P @ M @ X @ Sfx"
    "length M + length X = length lc + length rc" "sorted M"
    "mset M = mset (take l' lc) + mset (take r' rc)"
    "\<forall>x\<in>set M. \<forall>y\<in>set (drop l' lc) \<union> set (drop r' rc). x \<le> y"
    unfolding merge_inv_def by auto
  from s(5,6,8) i obtain x X' where X: "X = x # X'" by (cases X) auto
  have ipos: "i = length P + length M" "i < length d" using s(5,6,7) X by simp_all
  have upd: "\<And>v. setitem d (int i) v = Some (P @ (M @ [v]) @ X' @ Sfx)"
    using setitem_nat [OF ipos(2)] update_middle [of P M x X' Sfx] s(7) X ipos(1) by simp
  show ?thesis
  proof (cases "l' < length lc \<and> (length rc \<le> r' \<or> lc ! l' \<le> rc ! r')")
    case True
    define v where "v = lc ! l'"
    define d' where "d' = P @ (M @ [v]) @ X' @ Sfx"
    have run: "merge_body lc rc (int i) t = Some (int (Suc l'), int r', d', tr @ [Yield d'])"
      using True s(1,2,4) t upd [of v]
      by (auto simp: merge_body_def getitem_nat v_def d'_def add.commute)
    have vin: "v \<in> set (drop l' lc)" using True by (auto simp: v_def in_set_conv_nth intro: exI [of _ 0])
    have v1: "\<forall>y\<in>set (drop (Suc l') lc). v \<le> y"
      using sorted_nth_le_drop [OF lc, of l'] True set_drop_subset_set_drop [of l' "Suc l'" lc]
      by (auto simp: v_def)
    have v2: "\<forall>y\<in>set (drop r' rc). v \<le> y"
    proof (cases "length rc \<le> r'")
      case True then show ?thesis by simp
    next
      case False
      with True have "lc ! l' \<le> rc ! r'" by simp
      moreover have "\<forall>y\<in>set (drop r' rc). rc ! r' \<le> y"
        using sorted_nth_le_drop [OF rc, of r'] False by auto
      ultimately show ?thesis by (auto simp: v_def)
    qed
    have "sorted (M @ [v]) \<and>
        (\<forall>x\<in>set (M @ [v]). \<forall>y\<in>set (drop (Suc l') lc) \<union> set (drop r' rc). x \<le> y)"
      using s(9,11) vin v1 v2 set_drop_subset_set_drop [of l' "Suc l'" lc]
      by (intro merge_inv_extend [where l' = l' and r' = r']) auto
    moreover have "mset (M @ [v]) = mset (take (Suc l') lc) + mset (take r' rc)"
      using s(10) True by (simp add: take_Suc_conv_app_nth v_def)
    ultimately have "merge_inv d0 P lc rc Sfx (Suc i) (int (Suc l'), int r', d', tr @ [Yield d'])"
      unfolding d'_def using s(3-8) True X by (intro merge_invI) simp_all
    with run show ?thesis by blast
  next
    case False
    have r': "r' < length rc" using False s(5,8) X s(3,4) by (cases "l' < length lc") auto
    define v where "v = rc ! r'"
    define d' where "d' = P @ (M @ [v]) @ X' @ Sfx"
    have run: "merge_body lc rc (int i) t = Some (int l', int (Suc r'), d', tr @ [Yield d'])"
      using False r' s(1,2,3) t upd [of v]
      by (auto simp: merge_body_def getitem_nat v_def d'_def add.commute)
    have vin: "v \<in> set (drop r' rc)" using r' by (auto simp: v_def in_set_conv_nth intro: exI [of _ 0])
    have v1: "\<forall>y\<in>set (drop (Suc r') rc). v \<le> y"
      using sorted_nth_le_drop [OF rc, of r'] r' set_drop_subset_set_drop [of r' "Suc r'" rc]
      by (auto simp: v_def)
    have v2: "\<forall>y\<in>set (drop l' lc). v \<le> y"
    proof (cases "length lc \<le> l'")
      case True then show ?thesis by simp
    next
      case F: False
      with False r' have "rc ! r' \<le> lc ! l'" by auto
      moreover have "\<forall>y\<in>set (drop l' lc). lc ! l' \<le> y"
        using sorted_nth_le_drop [OF lc, of l'] F by auto
      ultimately show ?thesis by (auto simp: v_def)
    qed
    have "sorted (M @ [v]) \<and>
        (\<forall>x\<in>set (M @ [v]). \<forall>y\<in>set (drop l' lc) \<union> set (drop (Suc r') rc). x \<le> y)"
      using s(9,11) vin v1 v2 set_drop_subset_set_drop [of r' "Suc r'" rc]
      by (intro merge_inv_extend [where l' = l' and r' = r']) auto
    moreover have "mset (M @ [v]) = mset (take l' lc) + mset (take (Suc r') rc)"
      using s(10) r' by (simp add: take_Suc_conv_app_nth v_def)
    ultimately have "merge_inv d0 P lc rc Sfx (Suc i) (int l', int (Suc r'), d', tr @ [Yield d'])"
      unfolding d'_def using s(3-8) r' X by (intro merge_invI) simp_all
    with run show ?thesis by blast
  qed
qed

lemma MergeSort_merge_correct:
  assumes "sorted M1" "sorted M2" "latest d0 tr = P @ M1 @ M2 @ Sfx"
  shows "\<exists>M tr'. MergeSort_merge (int (length P)) (int (length P + length M1) - 1)
                     (int (length P + length M1 + length M2) - 1) (P @ M1 @ M2 @ Sfx, tr)
                   = Some (P @ M @ Sfx, tr') \<and>
                 sorted M \<and> mset M = mset M1 + mset M2 \<and> latest d0 tr' = P @ M @ Sfx"
proof -
  let ?d = "P @ M1 @ M2 @ Sfx"
  let ?n = "length P + length M1 + length M2"
  have lc: "py_slice ?d (int (length P)) (int (length P + length M1) - 1 + 1) = M1"
    using py_slice_middle [of P M1 "M2 @ Sfx"] by simp
  have rc: "py_slice ?d (int (length P + length M1) - 1 + 1) (int ?n - 1 + 1) = M2"
    using py_slice_middle [of "P @ M1" M2 Sfx] by (simp add: add.assoc)
  have "\<exists>s'. for_range (int (length P)) (int ?n) (merge_body M1 M2) (int 0, int 0, ?d, tr) = Some s'
          \<and> merge_inv d0 P M1 M2 Sfx ?n s'"
  proof (rule for_range_nat [where I = "merge_inv d0 P M1 M2 Sfx"])
    show "merge_inv d0 P M1 M2 Sfx (length P) (int 0, int 0, ?d, tr)"
      using merge_invI [of 0 M1 0 M2 "[]" "length P" P "M1 @ M2" d0 tr Sfx] assms(3) by simp
    show "length P \<le> ?n" by simp
    fix k u assume "k < ?n" "merge_inv d0 P M1 M2 Sfx k u"
    then show "\<exists>t'. merge_body M1 M2 (int k) u = Some t' \<and> merge_inv d0 P M1 M2 Sfx (Suc k) t'"
      using merge_body_step [of d0 P M1 M2 Sfx k u] assms(1,2) by simp
  qed
  then obtain l r d' tr' where run: "for_range (int (length P)) (int ?n) (merge_body M1 M2) (0, 0, ?d, tr)
      = Some (l, r, d', tr')" and inv: "merge_inv d0 P M1 M2 Sfx ?n (l, r, d', tr')"
    by auto
  from inv obtain l' r' M X where s: "l' \<le> length M1" "r' \<le> length M2"
    "length M = l' + r'" "?n = length P + l' + r'" "d' = P @ M @ X @ Sfx"
    "length M + length X = length M1 + length M2" "sorted M"
    "mset M = mset (take l' M1) + mset (take r' M2)" "latest d0 tr' = d'"
    unfolding merge_inv_def by auto
  from s(1-4,6) have "l' = length M1" "r' = length M2" "X = []" by auto
  with s have "d' = P @ M @ Sfx" "sorted M" "mset M = mset M1 + mset M2" "latest d0 tr' = P @ M @ Sfx"
    by simp_all
  moreover have "MergeSort_merge (int (length P)) (int (length P + length M1) - 1)
                     (int ?n - 1) (?d, tr) = Some (d', tr')"
    unfolding MergeSort_merge_def using run by (simp only: prod.case Let_def lc rc) simp
  ultimately show ?thesis by blast
qed

lemma MergeSort_merge_sort_correct:
  assumes "latest d0 tr = P @ L @ Sfx"
  shows "\<exists>M tr'. MergeSort_merge_sort (int (length P)) (int (length P + length L) - 1) (P @ L @ Sfx, tr)
                   = Some (P @ M @ Sfx, tr') \<and>
                 sorted M \<and> mset M = mset L \<and> latest d0 tr' = P @ M @ Sfx"
  using assms
proof (induction "length L" arbitrary: P L Sfx tr rule: less_induct)
  case less
  show ?case
  proof (cases "length L \<le> 1")
    case True
    then have "sorted L" by (cases L) (auto simp: le_Suc_eq)
    moreover have "MergeSort_merge_sort (int (length P)) (int (length P + length L) - 1) (P @ L @ Sfx, tr)
        = Some (P @ L @ Sfx, tr)"
      using True by (subst MergeSort_merge_sort.simps) simp
    ultimately show ?thesis using less.prems by blast
  next
    case False
    define k where "k = (length L + 1) div 2"
    define L1 where "L1 = take k L"
    define L2 where "L2 = drop k L"
    have k: "0 < k" "k < length L" using False by (simp_all add: k_def)
    have L: "L = L1 @ L2" by (simp add: L1_def L2_def)
    have l1: "length L1 = k" and l2: "length L2 = length L - k" using k by (simp_all add: L1_def L2_def)
    have mid: "(int (length P) + (int (length P + length L) - 1)) div 2 = int (length P + length L1) - 1"
      unfolding l1 k_def by (simp add: zdiv_int)
    have lt: "int (length P) < int (length P + length L) - 1" using False by simp
    have "length L1 < length L" using k l1 by simp
    from less.hyps [OF this, of tr P "L2 @ Sfx"] less.prems
    obtain M1 tr1 where 1: "MergeSort_merge_sort (int (length P)) (int (length P + length L1) - 1)
        (P @ L1 @ L2 @ Sfx, tr) = Some (P @ M1 @ L2 @ Sfx, tr1)"
      "sorted M1" "mset M1 = mset L1" "latest d0 tr1 = P @ M1 @ L2 @ Sfx"
      unfolding L by auto
    have len1: "length M1 = length L1" using 1(3) by (metis size_mset)
    have "length L2 < length L" using k l2 by simp
    from less.hyps [OF this, of tr1 "P @ M1" Sfx] 1(4)
    obtain M2 tr2 where 2: "MergeSort_merge_sort (int (length (P @ M1))) (int (length (P @ M1) + length L2) - 1)
        ((P @ M1) @ L2 @ Sfx, tr1) = Some ((P @ M1) @ M2 @ Sfx, tr2)"
      "sorted M2" "mset M2 = mset L2" "latest d0 tr2 = (P @ M1) @ M2 @ Sfx"
      by auto
    have len2: "length M2 = length L2" using 2(3) by (metis size_mset)
    from MergeSort_merge_correct [OF 1(2) 2(2), of d0 tr2 P Sfx] 2(4)
    obtain M tr' where 3: "MergeSort_merge (int (length P)) (int (length P + length M1) - 1)
        (int (length P + length M1 + length M2) - 1) (P @ M1 @ M2 @ Sfx, tr2) = Some (P @ M @ Sfx, tr')"
      "sorted M" "mset M = mset M1 + mset M2" "latest d0 tr' = P @ M @ Sfx"
      by auto
    define lo where "lo = int (length P)"
    define hi where "hi = int (length P + length L) - 1"
    define md where "md = (lo + hi) div 2"
    have md: "md = int (length P + length L1) - 1" unfolding md_def lo_def hi_def by (rule mid)
    have a: "MergeSort_merge_sort lo md (P @ L @ Sfx, tr) = Some (P @ M1 @ L2 @ Sfx, tr1)"
      using 1(1) by (simp add: lo_def md L)
    have b: "MergeSort_merge_sort (md + 1) hi (P @ M1 @ L2 @ Sfx, tr1) = Some (P @ M1 @ M2 @ Sfx, tr2)"
      using 2(1) len1 L by (simp add: hi_def md algebra_simps)
    have c: "MergeSort_merge lo md hi (P @ M1 @ M2 @ Sfx, tr2) = Some (P @ M @ Sfx, tr')"
      using 3(1) len1 len2 L by (simp add: lo_def hi_def md algebra_simps)
    have "lo < hi" using lt by (simp add: lo_def hi_def)
    then have "MergeSort_merge_sort lo hi (P @ L @ Sfx, tr) = Some (P @ M @ Sfx, tr')"
      by (subst MergeSort_merge_sort.simps) (simp add: Let_def md_def [symmetric] a b c)
    then have "MergeSort_merge_sort (int (length P)) (int (length P + length L) - 1) (P @ L @ Sfx, tr)
        = Some (P @ M @ Sfx, tr')"
      by (simp add: lo_def hi_def)
    moreover have "mset M = mset L" using 3(3) 1(3) 2(3) L by simp
    ultimately show ?thesis using 3(2,4) by blast
  qed
qed

lemma MergeSort_sort_correct:
  "\<exists>d tr. MergeSort_sort d0 = Some (d, tr) \<and> length d = length d0 \<and> mset d = mset d0 \<and> sorted d
     \<and> latest d0 tr = d"
proof -
  from MergeSort_merge_sort_correct [of d0 "[]" "[]" d0 "[]"]
  obtain M tr where "MergeSort_merge_sort 0 (int (length d0) - 1) (d0, []) = Some (M, tr)"
    "sorted M" "mset M = mset d0" "latest d0 tr = M" by auto
  moreover from this have "length M = length d0" by (metis size_mset)
  ultimately show ?thesis by (simp add: MergeSort_sort_def)
qed

section \<open>Quick sort sorts\<close>

lemma swap_items_same: "k < length xs \<Longrightarrow> swap_items xs (int k) (int k) = Some xs"
  by (simp add: swap_items_nat)

lemma swap_items_apart:
  "swap_items (X @ b # Y @ x # Z) (int (length X)) (int (length X + Suc (length Y)))
     = Some (X @ x # Y @ b # Z)"
proof -
  have "(X @ b # Y @ x # Z)[length X := x, length X + Suc (length Y) := b] = X @ x # Y @ b # Z"
    by (simp add: list_update_append nth_append)
  moreover have "(X @ b # Y @ x # Z) ! (length X + Suc (length Y)) = x" "(X @ b # Y @ x # Z) ! length X = b"
    by (simp_all add: nth_append)
  ultimately show ?thesis
    using swap_items_nat [of "length X" "X @ b # Y @ x # Z" "length X + Suc (length Y)"] by simp
qed

text \<open>Moving \<open>x\<close> in front of the block \<open>B\<close>: what the swap of positions \<open>i + 1\<close> and \<open>j\<close> does.\<close>

lemma swap_items_front:
  "\<exists>B'. swap_items (X @ B @ x # Z) (int (length X)) (int (length X + length B)) = Some (X @ x # B' @ Z)
        \<and> mset B' = mset B \<and> length B' = length B"
proof (cases B)
  case Nil
  then show ?thesis using swap_items_same [of "length X" "X @ x # Z"] by simp
next
  case (Cons b Y)
  have "swap_items (X @ B @ x # Z) (int (length X)) (int (length X + length B))
      = Some (X @ x # (Y @ [b]) @ Z)"
    using swap_items_apart [of X b Y x Z] Cons by simp
  moreover have "mset (Y @ [b]) = mset B" "length (Y @ [b]) = length B" using Cons by simp_all
  ultimately show ?thesis by blast
qed

definition partition_inv ::
  "int list \<Rightarrow> int list \<Rightarrow> int list \<Rightarrow> int \<Rightarrow> nat \<Rightarrow> int \<times> int list \<Rightarrow> bool" where
  "partition_inv P L Sfx pivot j = (\<lambda>(i, d).
     \<exists>A B R. d = P @ A @ B @ R @ pivot # Sfx \<and> i = int (length P + length A) - 1 \<and>
        j = length P + length A + length B \<and> length (A @ B @ R) + 1 = length L \<and>
        mset (A @ B @ R @ [pivot]) = mset L \<and> (\<forall>a\<in>set A. a \<le> pivot) \<and> (\<forall>b\<in>set B. pivot < b))"

lemma partition_invI:
  assumes "length (A @ B @ R) + 1 = length L" "mset (A @ B @ R @ [pivot]) = mset L"
    "\<forall>a\<in>set A. a \<le> pivot" "\<forall>b\<in>set B. pivot < b"
  shows "partition_inv P L Sfx pivot (length P + length A + length B)
           (int (length P + length A) - 1, P @ A @ B @ R @ pivot # Sfx)"
  unfolding partition_inv_def using assms by blast

lemma partition_body_step:
  assumes inv: "partition_inv P L Sfx pivot j t" and j: "j < length P + length L - 1"
  shows "\<exists>t'. partition_body pivot (int j) t = Some t' \<and> partition_inv P L Sfx pivot (Suc j) t'"
proof -
  obtain i d where t: "t = (i, d)" by (cases t)
  from inv t obtain A B R where s: "d = P @ A @ B @ R @ pivot # Sfx" "i = int (length P + length A) - 1"
    "j = length P + length A + length B" "length (A @ B @ R) + 1 = length L"
    "mset (A @ B @ R @ [pivot]) = mset L" "\<forall>a\<in>set A. a \<le> pivot" "\<forall>b\<in>set B. pivot < b"
    unfolding partition_inv_def by auto
  from s(3,4) j obtain x R' where R: "R = x # R'" by (cases R) auto
  have get: "getitem d (int j) = Some x"
    using getitem_nat [of j d] s(1,3) R by (simp add: nth_append)
  show ?thesis
  proof (cases "x \<le> pivot")
    case False
    have "partition_inv P L Sfx pivot (length P + length A + length (B @ [x]))
           (int (length P + length A) - 1, P @ A @ (B @ [x]) @ R' @ pivot # Sfx)"
      using s(4-7) False R by (intro partition_invI) simp_all
    then show ?thesis using False get t s(1-3) R by (simp add: partition_body_def)
  next
    case True
    from swap_items_front [of "P @ A" B x "R' @ pivot # Sfx"]
    obtain B' where B': "swap_items (P @ A @ B @ x # R' @ pivot # Sfx) (int (length P + length A))
        (int (length P + length A + length B)) = Some (P @ A @ x # B' @ R' @ pivot # Sfx)"
      "mset B' = mset B" "length B' = length B"
      by (auto simp: add.assoc)
    have "\<forall>b\<in>set B'. pivot < b" using s(7) B'(2) by (metis set_mset_mset)
    then have "partition_inv P L Sfx pivot (length P + length (A @ [x]) + length B')
           (int (length P + length (A @ [x])) - 1, P @ (A @ [x]) @ B' @ R' @ pivot # Sfx)"
      using s(4-6) True R B'(2,3) by (intro partition_invI) simp_all
    moreover have "partition_body pivot (int j) t
        = Some (int (length P + length A), P @ A @ x # B' @ R' @ pivot # Sfx)"
      using True get t s(1-3) R B'(1) by (simp add: partition_body_def)
    ultimately show ?thesis using s(3) B'(3) by (simp add: add.commute)
  qed
qed

lemma QuickSort_partition_correct:
  assumes "L \<noteq> []"
  shows "\<exists>A B. QuickSort_partition (P @ L @ Sfx) (int (length P)) (int (length P + length L) - 1)
                 = Some (P @ A @ last L # B @ Sfx, int (length P + length A)) \<and>
               mset (A @ last L # B) = mset L \<and>
               (\<forall>a\<in>set A. a \<le> last L) \<and> (\<forall>b\<in>set B. last L < b)"
proof -
  define pivot where "pivot = last L"
  define R0 where "R0 = butlast L"
  have L: "L = R0 @ [pivot]" using assms by (simp add: pivot_def R0_def)
  define high where "high = length P + length L - 1"
  have high: "int (length P + length L) - 1 = int high" "high = length P + length R0"
    using assms L by (simp_all add: high_def)
  have get: "getitem (P @ L @ Sfx) (int high) = Some pivot"
    using getitem_nat [of high "P @ L @ Sfx"] by (simp add: high(2) L nth_append)
  have "\<exists>s'. for_range (int (length P)) (int high) (partition_body pivot) (int (length P) - 1, P @ L @ Sfx)
          = Some s' \<and> partition_inv P L Sfx pivot high s'"
  proof (rule for_range_nat [where I = "partition_inv P L Sfx pivot"])
    show "partition_inv P L Sfx pivot (length P) (int (length P) - 1, P @ L @ Sfx)"
      using partition_invI [of "[]" "[]" R0 L pivot P Sfx] L by simp
    show "length P \<le> high" by (simp add: high(2))
    fix k u assume "k < high" "partition_inv P L Sfx pivot k u"
    then show "\<exists>t'. partition_body pivot (int k) u = Some t' \<and> partition_inv P L Sfx pivot (Suc k) t'"
      using partition_body_step [of P L Sfx pivot k u] by (simp add: high_def)
  qed
  then obtain i d1 where run: "for_range (int (length P)) (int high) (partition_body pivot)
      (int (length P) - 1, P @ L @ Sfx) = Some (i, d1)" and inv: "partition_inv P L Sfx pivot high (i, d1)"
    by auto
  from inv obtain A B R where s: "d1 = P @ A @ B @ R @ pivot # Sfx" "i = int (length P + length A) - 1"
    "high = length P + length A + length B" "length (A @ B @ R) + 1 = length L"
    "mset (A @ B @ R @ [pivot]) = mset L" "\<forall>a\<in>set A. a \<le> pivot" "\<forall>b\<in>set B. pivot < b"
    unfolding partition_inv_def by auto
  from s(3,4) high(2) L have R: "R = []" by simp
  from swap_items_front [of "P @ A" B pivot Sfx]
  obtain B' where B': "swap_items (P @ A @ B @ pivot # Sfx) (int (length P + length A))
      (int (length P + length A + length B)) = Some (P @ A @ pivot # B' @ Sfx)"
    "mset B' = mset B" "length B' = length B"
    by (auto simp: add.assoc)
  have "\<forall>b\<in>set B'. pivot < b" using s(7) B'(2) by (metis set_mset_mset)
  moreover have "mset (A @ pivot # B') = mset L" using s(5) R B'(2) by simp
  moreover have "QuickSort_partition (P @ L @ Sfx) (int (length P)) (int high)
      = Some (P @ A @ pivot # B' @ Sfx, int (length P + length A))"
    using get run s(1,2) R B'(1) s(3) by (simp add: QuickSort_partition_def)
  ultimately show ?thesis using s(6) unfolding high(1) pivot_def [symmetric] by blast
qed

text \<open>\<open>quick_steps d es\<close>: starting from contents \<open>d\<close>, the trace \<open>es\<close> consists of pairs of a
  completed partition call with the snapshot that follows it at once; each call works on the list
  as the previous snapshot showed it, and the snapshot shows exactly what the call left.\<close>

fun quick_steps :: "int list \<Rightarrow> event list \<Rightarrow> bool" where
  "quick_steps d [] = True"
| "quick_steps d (Partition low high p # Yield xs # es) =
     (QuickSort_partition d low high = Some (xs, p) \<and> quick_steps xs es)"
| "quick_steps d _ = False"

lemma quick_steps_append:
  "quick_steps d es \<Longrightarrow> quick_steps (latest d es) fs \<Longrightarrow> quick_steps d (es @ fs)"
  by (induction d es rule: quick_steps.induct) (simp_all add: latest_def)

lemma quick_steps_count: "quick_steps d es \<Longrightarrow> length (partitions es) = length (snapshots es)"
  by (induction d es rule: quick_steps.induct) simp_all

lemma QuickSort_quick_sort_correct:
  assumes "latest d0 tr = P @ L @ Sfx" "quick_steps d0 tr"
  shows "\<exists>M tr'. QuickSort_quick_sort (int (length P)) (int (length P + length L) - 1) (P @ L @ Sfx, tr)
                   = Some (P @ M @ Sfx, tr') \<and>
                 sorted M \<and> mset M = mset L \<and> latest d0 tr' = P @ M @ Sfx \<and> quick_steps d0 tr'"
  using assms
proof (induction "length L" arbitrary: P L Sfx tr rule: less_induct)
  case less
  define lo where "lo = int (length P)"
  define hi where "hi = int (length P + length L) - 1"
  show ?case
  proof (cases "length L \<le> 1")
    case True
    then have "sorted L" by (cases L) (auto simp: le_Suc_eq)
    moreover have "QuickSort_quick_sort (int (length P)) (int (length P + length L) - 1) (P @ L @ Sfx, tr)
        = Some (P @ L @ Sfx, tr)"
      using True by (subst QuickSort_quick_sort.simps) simp
    ultimately show ?thesis using less.prems by blast
  next
    case False
    then have ne: "L \<noteq> []" by auto
    from QuickSort_partition_correct [OF ne, of P Sfx]
    obtain A B where part: "QuickSort_partition (P @ L @ Sfx) lo hi
        = Some (P @ A @ last L # B @ Sfx, int (length P + length A))"
      "mset (A @ last L # B) = mset L" "\<forall>a\<in>set A. a \<le> last L" "\<forall>b\<in>set B. last L < b"
      unfolding lo_def hi_def by blast
    define pv where "pv = last L"
    define d1 where "d1 = P @ A @ pv # B @ Sfx"
    define p where "p = int (length P + length A)"
    define tr1 where "tr1 = tr @ [Partition lo hi p, Yield d1]"
    have part': "QuickSort_partition (P @ L @ Sfx) lo hi = Some (d1, p)"
      using part(1) by (simp add: d1_def p_def pv_def)
    have "size (mset (A @ last L # B)) = size (mset L)" by (simp only: part(2))
    then have len: "length L = length A + 1 + length B" by simp
    have st1: "quick_steps d0 tr1"
      unfolding tr1_def using less.prems part' by (intro quick_steps_append) simp_all
    have la1: "latest d0 tr1 = P @ A @ (pv # B @ Sfx)" by (simp add: tr1_def d1_def)
    have "length A < length L" using len by simp
    from less.hyps [OF this la1 st1]
    obtain A' tr2 where 1: "QuickSort_quick_sort lo (p - 1) (d1, tr1) = Some (P @ A' @ pv # B @ Sfx, tr2)"
      "sorted A'" "mset A' = mset A" "latest d0 tr2 = P @ A' @ pv # B @ Sfx" "quick_steps d0 tr2"
      unfolding lo_def p_def d1_def by auto
    have lenA: "length A' = length A" using 1(3) by (metis size_mset)
    have la2: "latest d0 tr2 = (P @ A' @ [pv]) @ B @ Sfx" using 1(4) by simp
    have "length B < length L" using len by simp
    from less.hyps [OF this la2 1(5)]
    obtain B' tr3 where 2: "QuickSort_quick_sort (int (length (P @ A' @ [pv])))
        (int (length (P @ A' @ [pv]) + length B) - 1) ((P @ A' @ [pv]) @ B @ Sfx, tr2)
          = Some ((P @ A' @ [pv]) @ B' @ Sfx, tr3)"
      "sorted B'" "mset B' = mset B" "latest d0 tr3 = (P @ A' @ [pv]) @ B' @ Sfx" "quick_steps d0 tr3"
      by auto
    have r2: "QuickSort_quick_sort (p + 1) hi (P @ A' @ pv # B @ Sfx, tr2)
          = Some (P @ A' @ pv # B' @ Sfx, tr3)"
      using 2(1) lenA len by (simp add: p_def hi_def algebra_simps)
    have "lo < hi" using False by (simp add: lo_def hi_def)
    then have run: "QuickSort_quick_sort lo hi (P @ L @ Sfx, tr) = Some (P @ (A' @ pv # B') @ Sfx, tr3)"
      by (subst QuickSort_quick_sort.simps) (simp add: part' 1(1) [unfolded tr1_def] r2)
    have "\<forall>a\<in>set A'. a \<le> pv" using part(3) 1(3) unfolding pv_def by (metis set_mset_mset)
    moreover have "\<forall>b\<in>set B'. pv < b" using part(4) 2(3) unfolding pv_def by (metis set_mset_mset)
    ultimately have "sorted (A' @ pv # B')"
      using 1(2) 2(2) by (fastforce simp: sorted_append)
    moreover have "mset (A' @ pv # B') = mset L" using part(2) 1(3) 2(3) by (simp add: pv_def)
    moreover have "latest d0 tr3 = P @ (A' @ pv # B') @ Sfx" using 2(4) by simp
    ultimately show ?thesis using run 2(5) unfolding lo_def hi_def by blast
  qed
qed

lemma QuickSort_sort_correct:
  "\<exists>d tr. QuickSort_sort d0 = Some (d, tr) \<and> length d = length d0 \<and> mset d = mset d0 \<and> sorted d
     \<and> latest d0 tr = d \<and> quick_steps d0 tr"
proof -
  from QuickSort_quick_sort_correct [of d0 "[]" "[]" d0 "[]"]
  obtain M tr where "QuickSort_quick_sort 0 (int (length d0) - 1) (d0, []) = Some (M, tr)"
    "sorted M" "mset M = mset d0" "latest d0 tr = M" "quick_steps d0 tr" by auto
  moreover from this have "length M = length d0" by (metis size_mset)
  ultimately show ?thesis by (simp add: QuickSort_sort_def)
qed

section \<open>All five variants sort\<close>

lemma sort_body_correct:
  "\<exists>d tr. sort_body v D = Some (d, tr) \<and> sorted d \<and> mset d = mset D \<and> latest D tr = d"
proof (cases v)
  case BubbleSort
  from bubble_sort_data [of D] obtain d tr where
    r: "BubbleSort_sort D = Some (d, tr)" "mset d = mset D" "sorted d" by blast
  with bubble_sort_trace [OF r(1)] BubbleSort show ?thesis by simp
next
  case InsertionSort
  with insertion_sort_correct [of D] show ?thesis by auto
next
  case MergeSort
  with MergeSort_sort_correct [of D] show ?thesis by auto
next
  case QuickSort
  with QuickSort_sort_correct [of D] show ?thesis by auto
next
  case SelectionSort
  with selection_sort_correct [of D] show ?thesis by auto
qed

lemma sort_body_sort:
  "\<exists>tr. sort_body v D = Some (sort D, tr) \<and> latest D tr = sort D"
proof -
  from sort_body_correct [of v D] obtain d tr where
    r: "sort_body v D = Some (d, tr)" "sorted d" "mset d = mset D" "latest D tr = d" by blast
  from r(2,3) have "sort D = d" by (intro properties_for_sort) simp_all
  with r show ?thesis by simp
qed

section \<open>Every snapshot holds values of the dataset\<close>


























section \<open>The playback loop\<close>





lemma render_calls_rendering [simp]:
  "render_calls (concat (map (\<lambda>data. [Draw data, Sleep]) snaps)) = snaps"
  by (induction snaps) simp_all


lemma drain_execute:
  assumes "a < length \<sigma>"
  shows "\<exists>tr. sort_body (strategy ctx) (\<sigma> ! a) = Some (sort (\<sigma> ! a), tr) \<and>
           latest (\<sigma> ! a) tr = sort (\<sigma> ! a) \<and>
           drain (snd (execute ctx clock a)) \<sigma> = Some (\<sigma>[a := sort (\<sigma> ! a)], snapshots tr)"
proof -
  from sort_body_sort [of "strategy ctx" "\<sigma> ! a"] obtain tr where
    r: "sort_body (strategy ctx) (\<sigma> ! a) = Some (sort (\<sigma> ! a), tr)" "latest (\<sigma> ! a) tr = sort (\<sigma> ! a)"
    by blast
  then have "drain (snd (execute ctx clock a)) \<sigma> = Some (\<sigma>[a := sort (\<sigma> ! a)], snapshots tr)"
    using assms
    by (simp add: drain_def execute_def sort_decorated_def timing_decorator_def sort_undecorated_def)
  with r show ?thesis by blast
qed



text \<open>
  A run that does not reach the end: bubble sort on \<open>[0, -1, -2]\<close>. The first snapshot is
  \<open>[-1, 0, -2]\<close>, whose largest value is 0, so \<open>draw_data\<close> raises and the copy stays as that
  snapshot left it.
\<close>

lemma run_sort_draw_raises:
  "run_sort 0 \<lparr>strategy = BubbleSort\<rparr> (t0, t1) [[0, - 1, - 2]]
     = Some ([[0, - 1, - 2], [- 1, 0, - 2]], [Print (t1 - t0), DrawRaised [- 1, 0, - 2] ZeroDivisionError])"
proof -
  have b: "BubbleSort_sort [0, - 1, - 2]
      = Some ([- 2, - 1, 0], [Pass 0, Swap 0 1, Yield [- 1, 0, - 2], Swap 1 2, Yield [- 1, - 2, 0],
               Pass 1, Swap 0 1, Yield [- 2, - 1, 0], Pass 2])"
    by code_simp
  have d: "draw_data [- 1, 0, - 2] = Some ZeroDivisionError"
    by (simp add: draw_data_def true_div_raises_def)
  show ?thesis
    by (simp add: run_sort_def list_copy_def execute_def sort_decorated_def timing_decorator_def
        sort_undecorated_def drain_def b d)
qed

lemma partitions_append [simp]: "partitions (es @ fs) = partitions es @ partitions fs"
  by (induction es rule: partitions.induct) simp_all

lemma QuickSort_quick_sort_calls:
  "QuickSort_quick_sort low high (d, tr) = Some (d', tr') \<Longrightarrow>
     length (partitions tr') \<le> length (partitions tr) + nat (high - low)"
proof (induction low high "(d, tr)" arbitrary: d tr d' tr' rule: QuickSort_quick_sort.induct)
  case (1 low high data tr)
  show ?case
  proof (cases "low < high")
    case False
    with "1.prems" show ?thesis by (subst (asm) QuickSort_quick_sort.simps) simp
  next
    case True
    from "1.prems"(1) True obtain d1 p d2 tr2 where r: "QuickSort_partition data low high = Some (d1, p)"
      "QuickSort_quick_sort low (p - 1) (d1, tr @ [Partition low high p, Yield d1]) = Some (d2, tr2)"
      "QuickSort_quick_sort (p + 1) high (d2, tr2) = Some (d', tr')"
      by (subst (asm) QuickSort_quick_sort.simps) (auto split: option.splits)
    from QuickSort_partition_bounds [OF r(1)] True have p: "low \<le> p" "p \<le> high" by simp_all
    have 1: "length (partitions tr2) \<le> length (partitions (tr @ [Partition low high p, Yield d1])) + nat (p - 1 - low)"
      using "1.hyps"(1) [OF True r(1) refl r(2)] .
    have 2: "length (partitions tr') \<le> length (partitions tr2) + nat (high - (p + 1))"
      using "1.hyps"(2) [OF True r(1) refl r(2) r(3)] .
    from 1 2 p True show ?thesis by simp
  qed
qed

section \<open>The claims\<close>

text \<open>
  C1, as amended. For every dataset \<open>D\<close> and each of the five variants the run does not fail and
  leaves the list equal to \<open>D\<close> sorted ascending, a permutation of \<open>D\<close>. When at least one
  snapshot is emitted, the last one equals \<open>D\<close> sorted ascending and is a permutation of \<open>D\<close>;
  when none is emitted, \<open>D\<close> was sorted already.
\<close>

theorem C1_last_snapshot_sorted:
  "\<exists>d tr. sort_body v D = Some (d, tr) \<and> d = sort D \<and> mset d = mset D \<and>
     (case last_snapshot tr of None \<Rightarrow> D = sort D | Some s \<Rightarrow> s = sort D \<and> mset s = mset D)"
proof -
  from sort_body_sort [of v D] obtain tr where
    r: "sort_body v D = Some (sort D, tr)" "latest D tr = sort D" by blast
  have "case last_snapshot tr of None \<Rightarrow> D = sort D | Some s \<Rightarrow> s = sort D \<and> mset s = mset D"
    using r(2) by (auto simp: latest_def last_snapshot_def split: if_splits)
  with r(1) show ?thesis by simp
qed

text \<open>C1 at quick sort on \<open>[3, 1, 2]\<close>.\<close>

theorem C1_witness:
  "\<exists>d tr. sort_body QuickSort [3, 1, 2] = Some (d, tr) \<and> d = [1, 2, 3] \<and> last_snapshot tr = Some [1, 2, 3]"
proof -
  from C1_last_snapshot_sorted [of QuickSort "[3, 1, 2]"] obtain d tr where
    r: "sort_body QuickSort [3, 1, 2] = Some (d, tr)" "d = sort [3, 1, 2]"
    "case last_snapshot tr of None \<Rightarrow> [3, 1, 2] = sort [3, 1, 2 :: int]
     | Some s \<Rightarrow> s = sort [3, 1, 2] \<and> mset s = mset [3, 1, 2]"
    by blast
  from r(3) have "last_snapshot tr = Some [1, 2, 3]" by (cases "last_snapshot tr") simp_all
  with r(1,2) show ?thesis by simp
qed

text \<open>
  C1 as stated fails where no snapshot is emitted: bubble sort on the sorted list \<open>[1, 2, 3]\<close>
  makes its three passes and yields nothing, so there is no last snapshot.
\<close>

theorem C1_counterexample:
  "sort_body BubbleSort [1, 2, 3] = Some ([1, 2, 3], [Pass 0, Pass 1, Pass 2]) \<and>
   last_snapshot [Pass 0, Pass 1, Pass 2] = None"
  by code_simp

text \<open>
  C2. The specification asks that the elapsed-time report come only after the snapshot sequence is
  exhausted. The code does otherwise: the decorator wraps a generator function, so the wrapped call
  only builds the generator object, and the report is printed when that call returns, before the
  first snapshot exists. For every context and list, \<open>execute\<close> has already printed when it
  returns the generator, which still holds the untouched list; the printed time is the difference
  of two clock readings taken before any sorting. On \<open>[2, 1]\<close> with bubble sort, the playback
  loop draws the one snapshot after the report.
\<close>

theorem C2_report_before_first_snapshot:
  "execute ctx (t0, t1) a = ([Print (t1 - t0)], \<lparr>gen_self = strategy ctx, gen_data = a\<rparr>) \<and>
   run_sort 0 \<lparr>strategy = BubbleSort\<rparr> (t0, t1) [[2, 1]]
     = Some ([[2, 1], [1, 2]], [Print (t1 - t0), Draw [1, 2], Sleep])"
proof -
  have b: "BubbleSort_sort [2, 1] = Some ([1, 2], [Pass 0, Swap 0 1, Yield [1, 2], Pass 1])"
    by code_simp
  have d: "draw_data [1, 2] = None" by (simp add: draw_data_def true_div_raises_def)
  show ?thesis
    by (simp add: run_sort_def list_copy_def execute_def sort_decorated_def timing_decorator_def
        sort_undecorated_def drain_def b d)
qed









text \<open>
  C5. On the empty dataset every variant returns normally with an empty trace, so the snapshot
  sequence is empty; consuming the sequence that \<open>execute\<close> returns for an empty list yields no
  snapshot and leaves the list empty.
\<close>

theorem C5_empty_dataset:
  "sort_body v [] = Some ([], []) \<and>
   drain (snd (execute \<lparr>strategy = v\<rparr> clock 0)) [[]] = Some ([[]], [])"
proof -
  have "sort_body v [] = Some ([], [])"
    by (cases v)
      (simp_all add: BubbleSort_sort_def InsertionSort_sort_def MergeSort_sort_def QuickSort_sort_def
        SelectionSort_sort_def for_range_empty MergeSort_merge_sort.simps QuickSort_quick_sort.simps)
  then show ?thesis
    by (simp add: execute_def sort_decorated_def timing_decorator_def sort_undecorated_def drain_def)
qed

text \<open>C5 at merge sort.\<close>

theorem C5_witness:
  "sort_body MergeSort [] = Some ([], []) \<and>
   drain (snd (execute \<lparr>strategy = MergeSort\<rparr> (0, 0) 0)) [[]] = Some ([[]], [])"
  by (rule C5_empty_dataset)

text \<open>
  C6. For every dataset quick sort returns normally with the list sorted, and its trace is a
  sequence of pairs, a completed partition call and at once the snapshot of what that call left
  (\<open>quick_steps\<close>): each call works on the list as the previous snapshot showed it, the last
  snapshot shows the sorted list, there are as many snapshots as partition calls, and at most
  \<open>n - 1\<close> of them on \<open>n\<close> elements; \<open>_partition\<close> itself cannot yield. On \<open>[2, 1]\<close> there is one
  partition call and one snapshot, \<open>[1, 2]\<close>; on \<open>[3, 1, 2, 5, 4]\<close> the snapshot of the partition of
  the whole range comes before the partition of the left sub-range. The partition is Lomuto's
  with the last element of the range as pivot: on a range holding \<open>L\<close>, between a prefix \<open>P\<close> and a
  suffix \<open>Sfx\<close> that it leaves alone, it returns the position of the pivot \<open>last L\<close>, with the
  elements at most the pivot before it and the greater ones after it, a permutation of \<open>L\<close>.
\<close>

theorem C6_quick_sort_snapshots:
  "(\<exists>d tr. QuickSort_sort D = Some (d, tr) \<and> d = sort D \<and> quick_steps D tr \<and>
       last (D # snapshots tr) = d \<and> length (partitions tr) = length (snapshots tr) \<and>
       length (snapshots tr) \<le> length D - 1) \<and>
   QuickSort_sort [2, 1] = Some ([1, 2], [Partition 0 1 0, Yield [1, 2]]) \<and>
   QuickSort_sort [3, 1, 2, 5, 4]
     = Some ([1, 2, 3, 4, 5],
             [Partition 0 4 3, Yield [3, 1, 2, 4, 5], Partition 0 2 1, Yield [1, 2, 3, 4, 5]]) \<and>
   (L \<noteq> [] \<longrightarrow>
      (\<exists>A B. QuickSort_partition (P @ L @ Sfx) (int (length P)) (int (length P + length L) - 1)
                 = Some (P @ A @ last L # B @ Sfx, int (length P + length A)) \<and>
             mset (A @ last L # B) = mset L \<and>
             (\<forall>a\<in>set A. a \<le> last L) \<and> (\<forall>b\<in>set B. last L < b)))"
proof (intro conjI impI)
  from QuickSort_sort_correct [of D] obtain d tr where
    r: "QuickSort_sort D = Some (d, tr)" "mset d = mset D" "sorted d" "latest D tr = d"
    "quick_steps D tr" by blast
  from r(2,3) have s: "sort D = d" by (intro properties_for_sort) simp_all
  have "length (partitions tr) \<le> length (partitions []) + nat (int (length D) - 1 - 0)"
    using r(1) unfolding QuickSort_sort_def by (rule QuickSort_quick_sort_calls)
  then have "length (snapshots tr) \<le> length D - 1"
    using quick_steps_count [OF r(5)] by simp
  then have "QuickSort_sort D = Some (d, tr) \<and> d = sort D \<and> quick_steps D tr \<and>
       last (D # snapshots tr) = d \<and> length (partitions tr) = length (snapshots tr) \<and>
       length (snapshots tr) \<le> length D - 1"
    using quick_steps_count [OF r(5)] r(1,5) r(4) [unfolded latest_def] s by simp
  then show "\<exists>d tr. QuickSort_sort D = Some (d, tr) \<and> d = sort D \<and> quick_steps D tr \<and>
       last (D # snapshots tr) = d \<and> length (partitions tr) = length (snapshots tr) \<and>
       length (snapshots tr) \<le> length D - 1"
    by blast
  show "QuickSort_sort [2, 1] = Some ([1, 2], [Partition 0 1 0, Yield [1, 2]])" by code_simp
  show "QuickSort_sort [3, 1, 2, 5, 4]
     = Some ([1, 2, 3, 4, 5],
             [Partition 0 4 3, Yield [3, 1, 2, 4, 5], Partition 0 2 1, Yield [1, 2, 3, 4, 5]])"
    by code_simp
  assume "L \<noteq> []"
  then show "\<exists>A B. QuickSort_partition (P @ L @ Sfx) (int (length P)) (int (length P + length L) - 1)
                 = Some (P @ A @ last L # B @ Sfx, int (length P + length A)) \<and>
             mset (A @ last L # B) = mset L \<and>
             (\<forall>a\<in>set A. a \<le> last L) \<and> (\<forall>b\<in>set B. last L < b)"
    by (rule QuickSort_partition_correct)
qed

text \<open>C6 at the dataset \<open>[4, 1, 3]\<close>, and at the range \<open>1 .. 3\<close> of \<open>[9, 4, 1, 3, 0]\<close>.\<close>

theorem C6_witness:
  "[4, 1, 3 :: int] \<noteq> [] \<and>
   (\<exists>d tr. QuickSort_sort [4, 1, 3] = Some (d, tr) \<and> d = [1, 3, 4] \<and> quick_steps [4, 1, 3] tr \<and>
       last ([4, 1, 3] # snapshots tr) = [1, 3, 4] \<and>
       length (partitions tr) = length (snapshots tr) \<and> length (snapshots tr) \<le> 2) \<and>
   (\<exists>A B. QuickSort_partition [9, 4, 1, 3, 0] 1 3 = Some (9 # A @ 3 # B @ [0], 1 + int (length A)) \<and>
       mset (A @ 3 # B) = mset [4, 1, 3])"
proof -
  from C6_quick_sort_snapshots [of "[4, 1, 3]" "[4, 1, 3]" "[9]" "[0]"]
  have 1: "\<exists>d tr. QuickSort_sort [4, 1, 3] = Some (d, tr) \<and> d = sort [4, 1, 3] \<and> quick_steps [4, 1, 3] tr \<and>
       last ([4, 1, 3] # snapshots tr) = d \<and> length (partitions tr) = length (snapshots tr) \<and>
       length (snapshots tr) \<le> length [4, 1, 3 :: int] - 1"
    and 2: "\<exists>A B. QuickSort_partition ([9] @ [4, 1, 3] @ [0]) (int (length [9 :: int]))
                 (int (length [9 :: int] + length [4, 1, 3 :: int]) - 1)
                 = Some ([9] @ A @ last [4, 1, 3] # B @ [0], int (length [9 :: int] + length A)) \<and>
             mset (A @ last [4, 1, 3] # B) = mset [4, 1, 3] \<and>
             (\<forall>a\<in>set A. a \<le> last [4, 1, 3]) \<and> (\<forall>b\<in>set B. last [4, 1, 3] < b)"
    by blast+
  from 1 have "\<exists>d tr. QuickSort_sort [4, 1, 3] = Some (d, tr) \<and> d = [1, 3, 4] \<and> quick_steps [4, 1, 3] tr \<and>
       last ([4, 1, 3] # snapshots tr) = [1, 3, 4] \<and>
       length (partitions tr) = length (snapshots tr) \<and> length (snapshots tr) \<le> 2"
    by (simp del: last.simps add: numeral_2_eq_2)
  moreover from 2 have "\<exists>A B. QuickSort_partition [9, 4, 1, 3, 0] 1 3
        = Some (9 # A @ 3 # B @ [0], 1 + int (length A)) \<and> mset (A @ 3 # B) = mset [4, 1, 3]"
    by simp blast
  ultimately show ?thesis by simp
qed

text \<open>
  C7. For every dataset of \<open>n\<close> elements selection sort returns normally with exactly \<open>n\<close>
  snapshots, one per outer iteration whether or not the swap moved anything, and leaves the list
  sorted, which is also what the last snapshot shows. On \<open>[5, 3, 4, 1, 2]\<close> there are 5 snapshots,
  the last \<open>[1, 2, 3, 4, 5]\<close>.
\<close>

theorem C7_selection_sort_snapshots:
  "(\<exists>d tr. SelectionSort_sort D = Some (d, tr) \<and> d = sort D \<and>
       length (snapshots tr) = length D \<and> last (D # snapshots tr) = sort D) \<and>
   SelectionSort_sort [5, 3, 4, 1, 2]
     = Some ([1, 2, 3, 4, 5],
             [Yield [1, 3, 4, 5, 2], Yield [1, 2, 4, 5, 3], Yield [1, 2, 3, 5, 4],
              Yield [1, 2, 3, 4, 5], Yield [1, 2, 3, 4, 5]])"
proof
  from selection_sort_correct [of D] obtain d tr where
    r: "SelectionSort_sort D = Some (d, tr)" "mset d = mset D" "sorted d"
    "length (snapshots tr) = length D" "latest D tr = d" by blast
  from r(2,3) have "sort D = d" by (intro properties_for_sort) simp_all
  with r show "\<exists>d tr. SelectionSort_sort D = Some (d, tr) \<and> d = sort D \<and>
       length (snapshots tr) = length D \<and> last (D # snapshots tr) = sort D"
    by (auto simp: latest_def)
  show "SelectionSort_sort [5, 3, 4, 1, 2]
     = Some ([1, 2, 3, 4, 5],
             [Yield [1, 3, 4, 5, 2], Yield [1, 2, 4, 5, 3], Yield [1, 2, 3, 5, 4],
              Yield [1, 2, 3, 4, 5], Yield [1, 2, 3, 4, 5]])"
    by code_simp
qed

text \<open>C7 at the sorted dataset \<open>[1, 2, 3]\<close>: three snapshots although no swap moves anything.\<close>

theorem C7_witness:
  "\<exists>d tr. SelectionSort_sort [1, 2, 3] = Some (d, tr) \<and> d = [1, 2, 3] \<and> length (snapshots tr) = 3"
  using C7_selection_sort_snapshots [of "[1, 2, 3]"] by (auto simp: numeral_3_eq_3)

text \<open>
  C8. For every dataset of \<open>n\<close> elements bubble sort returns normally with the list sorted, after
  exactly the passes \<open>0, ..., n - 1\<close>, whatever the data. Its trace pairs every swap with the
  snapshot that follows it at once and has no other snapshot (\<open>bubble_steps\<close>): each swap
  exchanges two neighbours that are out of order in the list as the previous snapshot showed it,
  the snapshot shows the list after that swap, and the last snapshot shows the sorted list. So
  there are as many snapshots as swaps. On \<open>[1, 2, 3]\<close> there are three passes, no swap, no
  snapshot, and the list is unchanged; on \<open>[3, 1, 2]\<close> there are two swaps, each with its snapshot.
\<close>

theorem C8_bubble_sort_snapshots:
  "(\<exists>d tr. BubbleSort_sort D = Some (d, tr) \<and> d = sort D \<and> bubble_steps D tr \<and>
       last (D # snapshots tr) = d \<and> passes tr = map int [0..<length D] \<and>
       length (swaps tr) = length (snapshots tr)) \<and>
   BubbleSort_sort [1, 2, 3] = Some ([1, 2, 3], [Pass 0, Pass 1, Pass 2]) \<and>
   BubbleSort_sort [3, 1, 2]
     = Some ([1, 2, 3],
             [Pass 0, Swap 0 1, Yield [1, 3, 2], Swap 1 2, Yield [1, 2, 3], Pass 1, Pass 2])"
proof (intro conjI)
  from bubble_sort_data [of D] obtain d tr where
    r: "BubbleSort_sort D = Some (d, tr)" "mset d = mset D" "sorted d" by blast
  from r(2,3) have s: "sort D = d" by (intro properties_for_sort) simp_all
  from bubble_sort_trace [OF r(1)] have t: "bubble_steps D tr" "latest D tr = d"
    "passes tr = map int [0..<length D]"
    by simp_all
  have "BubbleSort_sort D = Some (d, tr) \<and> d = sort D \<and> bubble_steps D tr \<and>
       last (D # snapshots tr) = d \<and> passes tr = map int [0..<length D] \<and>
       length (swaps tr) = length (snapshots tr)"
    using bubble_steps_count [OF t(1)] r(1) s t(1,3) t(2) [unfolded latest_def] by simp
  then show "\<exists>d tr. BubbleSort_sort D = Some (d, tr) \<and> d = sort D \<and> bubble_steps D tr \<and>
       last (D # snapshots tr) = d \<and> passes tr = map int [0..<length D] \<and>
       length (swaps tr) = length (snapshots tr)"
    by blast
  show "BubbleSort_sort [1, 2, 3] = Some ([1, 2, 3], [Pass 0, Pass 1, Pass 2])" by code_simp
  show "BubbleSort_sort [3, 1, 2]
     = Some ([1, 2, 3],
             [Pass 0, Swap 0 1, Yield [1, 3, 2], Swap 1 2, Yield [1, 2, 3], Pass 1, Pass 2])"
    by code_simp
qed

text \<open>C8 at \<open>[2, 3, 1]\<close>.\<close>

theorem C8_witness:
  "\<exists>d tr. BubbleSort_sort [2, 3, 1] = Some (d, tr) \<and> d = [1, 2, 3] \<and> bubble_steps [2, 3, 1] tr \<and>
       last ([2, 3, 1] # snapshots tr) = [1, 2, 3] \<and>
       passes tr = [0, 1, 2] \<and> length (swaps tr) = length (snapshots tr)"
  using C8_bubble_sort_snapshots [of "[2, 3, 1]"] by (simp del: last.simps add: upt_rec)

text \<open>
  C9. The wrapper returns what the wrapped function returned, whatever the function. So the
  generator that the decorated \<open>sort\<close> returns is the one the undecorated \<open>sort\<close> builds:
  consumed on the same list, both give the snapshots of the variant's run, the same ones in the
  same order, and leave the same store.
\<close>

theorem C9_decorator_keeps_sequence:
  "snd (timing_decorator func clock args) = func args \<and>
   (a < length \<sigma> \<longrightarrow>
      (\<exists>d tr. sort_body v (\<sigma> ! a) = Some (d, tr) \<and>
         drain (snd (sort_decorated v clock' a)) \<sigma> = Some (\<sigma>[a := d], snapshots tr) \<and>
         drain (sort_undecorated v a) \<sigma> = Some (\<sigma>[a := d], snapshots tr)))"
proof (intro conjI impI)
  show "snd (timing_decorator func clock args) = func args"
    by (simp add: timing_decorator_def)
  assume a: "a < length \<sigma>"
  from sort_body_correct [of v "\<sigma> ! a"] obtain d tr where
    r: "sort_body v (\<sigma> ! a) = Some (d, tr)" by blast
  have "snd (sort_decorated v clock' a) = sort_undecorated v a"
    by (simp add: sort_decorated_def timing_decorator_def)
  moreover have "drain (sort_undecorated v a) \<sigma> = Some (\<sigma>[a := d], snapshots tr)"
    using a r by (simp add: drain_def sort_undecorated_def)
  ultimately show "\<exists>d tr. sort_body v (\<sigma> ! a) = Some (d, tr) \<and>
         drain (snd (sort_decorated v clock' a)) \<sigma> = Some (\<sigma>[a := d], snapshots tr) \<and>
         drain (sort_undecorated v a) \<sigma> = Some (\<sigma>[a := d], snapshots tr)"
    using r by simp
qed

text \<open>C9 at quick sort on \<open>[2, 1]\<close>.\<close>

theorem C9_witness:
  "(0 :: nat) < length [[2, 1 :: int]] \<and>
   drain (snd (sort_decorated QuickSort (0, 1) 0)) [[2, 1]] = Some ([[1, 2]], [[1, 2]]) \<and>
   drain (sort_undecorated QuickSort 0) [[2, 1]] = Some ([[1, 2]], [[1, 2]])"
proof -
  have q: "QuickSort_sort [2, 1] = Some ([1, 2], [Partition 0 1 0, Yield [1, 2]])" by code_simp
  from C9_decorator_keeps_sequence [of "sort_undecorated QuickSort" "(0, 1)" 0 0 "[[2, 1]]" QuickSort "(0, 1)"]
  show ?thesis by (simp add: q)
qed

text \<open>
  C10. Two runs of the same variant on lists with equal contents emit the same snapshots in the
  same order, whatever the clock readings, wherever the two lists live and whatever else the two
  stores hold.
\<close>

theorem C10_deterministic:
  "a1 < length \<sigma>1 \<Longrightarrow> a2 < length \<sigma>2 \<Longrightarrow> \<sigma>1 ! a1 = \<sigma>2 ! a2 \<Longrightarrow>
     \<exists>snaps \<sigma>1' \<sigma>2'.
        drain (snd (execute ctx clock1 a1)) \<sigma>1 = Some (\<sigma>1', snaps) \<and>
        drain (snd (execute ctx clock2 a2)) \<sigma>2 = Some (\<sigma>2', snaps)"
proof -
  assume a: "a1 < length \<sigma>1" "a2 < length \<sigma>2" "\<sigma>1 ! a1 = \<sigma>2 ! a2"
  from drain_execute [OF a(1), of ctx clock1] obtain tr1 where
    1: "sort_body (strategy ctx) (\<sigma>1 ! a1) = Some (sort (\<sigma>1 ! a1), tr1)"
    "drain (snd (execute ctx clock1 a1)) \<sigma>1 = Some (\<sigma>1[a1 := sort (\<sigma>1 ! a1)], snapshots tr1)" by blast
  from drain_execute [OF a(2), of ctx clock2] obtain tr2 where
    2: "sort_body (strategy ctx) (\<sigma>2 ! a2) = Some (sort (\<sigma>2 ! a2), tr2)"
    "drain (snd (execute ctx clock2 a2)) \<sigma>2 = Some (\<sigma>2[a2 := sort (\<sigma>2 ! a2)], snapshots tr2)" by blast
  from 1(1) 2(1) a(3) have "tr1 = tr2" by simp
  with 1(2) 2(2) show ?thesis by blast
qed

text \<open>C10 at quick sort on \<open>[3, 1, 2]\<close>, in two stores and with two clocks.\<close>

theorem C10_witness:
  "(0 :: nat) < length [[3, 1, 2 :: int]] \<and> (1 :: nat) < length [[7], [3, 1, 2 :: int]] \<and>
   [[3, 1, 2 :: int]] ! 0 = [[7], [3, 1, 2]] ! 1 \<and>
   (\<exists>snaps \<sigma>1' \<sigma>2'.
        drain (snd (execute \<lparr>strategy = QuickSort\<rparr> (0, 1) 0)) [[3, 1, 2]] = Some (\<sigma>1', snaps) \<and>
        drain (snd (execute \<lparr>strategy = QuickSort\<rparr> (5, 9) 1)) [[7], [3, 1, 2]] = Some (\<sigma>2', snaps))"
  using C10_deterministic [of 0 "[[3, 1, 2]]" 1 "[[7], [3, 1, 2]]" "\<lparr>strategy = QuickSort\<rparr>" "(0, 1)" "(5, 9)"]
  by simp

end
